theory Spec2Isabelle
  imports Main "HOL-Library.AList"
begin

section \<open>Data model\<close>

text \<open>
  The classes of \<^verbatim>\<open>main.py\<close>. None of them defines \<^verbatim>\<open>__eq__\<close>, so Python compares
  stations by object identity: a station carries the identity of its object next to its
  name, and HOL equality on \<open>station\<close> is Python's \<^verbatim>\<open>==\<close> on stations.

  \<^verbatim>\<open>Leg\<close>, \<^verbatim>\<open>OD\<close> and \<^verbatim>\<open>Passenger\<close> all have the attributes \<^verbatim>\<open>origin\<close> and
  \<^verbatim>\<open>destination\<close>; the record \<open>trip\<close> holds the two, a leg is a trip, and passengers and
  ODs extend it, so that \<open>origin\<close> and \<open>destination\<close> read all three. The back-reference
  \<^verbatim>\<open>self.service\<close> of a leg or an OD is not stored: the operations that follow it take the
  service as an argument.

  Day offsets and counts are Python ints. Prices are annotated \<^verbatim>\<open>float\<close>, but every price
  of the repository is a Python int and sums of prices are compared exactly, so prices are
  unbounded integers here; rounding of floats is not modelled.
\<close>

datatype station = Station (oid: nat) (name: string)

record trip =
  origin :: station
  destination :: station

type_synonym leg = trip

record passenger = trip +
  sale_day_x :: int
  price :: int

record od = trip +
  passengers :: "passenger list"

datatype date = Date (toordinal: int)

datatype timedelta = Timedelta (days: int)

record service =
  service_name :: string
  departure_date :: date
  legs :: "leg list"
  ods :: "od list"

text \<open>
  What the code can raise or report: reading \<^verbatim>\<open>xs[-1]\<close> or \<^verbatim>\<open>xs[0]\<close> of an empty list
  and reading a missing dictionary key raise; \<^verbatim>\<open>forecast\<close> returns the string
  \<^verbatim>\<open>"Error, the demand_matrix is not up to date"\<close> instead of a list, which is the value
  \<open>StaleDemandData\<close>.
\<close>

datatype error = IndexError | KeyError | StaleDemandData

section \<open>Service\<close>

definition Service :: "string \<Rightarrow> date \<Rightarrow> service" where
  "Service n d = \<lparr>service_name = n, departure_date = d, legs = [], ods = []\<rparr>"

definition Passenger :: "station \<Rightarrow> station \<Rightarrow> int \<Rightarrow> int \<Rightarrow> passenger" where
  "Passenger a b d p = \<lparr>origin = a, destination = b, sale_day_x = d, price = p\<rparr>"

definition Leg :: "station \<Rightarrow> station \<Rightarrow> leg" where
  "Leg a b = \<lparr>origin = a, destination = b\<rparr>"

definition OD :: "station \<Rightarrow> station \<Rightarrow> od" where
  "OD a b = \<lparr>origin = a, destination = b, passengers = []\<rparr>"

definition date_sub :: "date \<Rightarrow> date \<Rightarrow> timedelta" where
  "date_sub a b = Timedelta (toordinal a - toordinal b)"

text \<open>\<^verbatim>\<open>Service.day_x\<close>; \<^verbatim>\<open>datetime.date.today()\<close> is the argument \<open>today\<close>.\<close>

definition day_x :: "date \<Rightarrow> service \<Rightarrow> int" where
  "day_x today svc = days (date_sub today (departure_date svc))"

text \<open>
  \<^verbatim>\<open>Service.itinerary\<close>. \<open>sources\<close> is the first loop (lines 41-43), \<open>append_stops\<close> one run of
  the \<^verbatim>\<open>for\<close> loop inside the \<^verbatim>\<open>while\<close> (lines 47-49), where \<^verbatim>\<open>itinerary[-1]\<close> is read
  again at every leg; the list is not empty there, since the loop condition has just read
  its last element. The \<^verbatim>\<open>while\<close> loop may run forever: \<open>None\<close> is "does not return".
\<close>

definition sources :: "station list \<Rightarrow> station list \<Rightarrow> station list" where
  "sources origins destinations =
     fold (\<lambda>station itinerary.
             if station \<notin> set destinations then itinerary @ [station] else itinerary)
          origins []"

definition append_stops :: "leg list \<Rightarrow> station list \<Rightarrow> station list" where
  "append_stops ls itinerary =
     fold (\<lambda>leg itinerary.
             if origin leg = last itinerary then itinerary @ [destination leg] else itinerary)
          ls itinerary"

partial_function (option)
  itinerary_while :: "leg list \<Rightarrow> station list \<Rightarrow> station list \<Rightarrow> (error + station list) option"
where
  "itinerary_while ls origins itinerary =
     (if itinerary = [] then Some (Inl IndexError)
      else if last itinerary \<in> set origins
        then itinerary_while ls origins (append_stops ls itinerary)
      else Some (Inr itinerary))"

declare itinerary_while.simps [code]

definition itinerary :: "service \<Rightarrow> (error + station list) option" where
  "itinerary svc =
     (let origins = map origin (legs svc);
          destinations = map destination (legs svc)
      in itinerary_while (legs svc) origins (sources origins destinations))"

text \<open>\<^verbatim>\<open>Service.load_itinerary\<close>: the legs and ODs of lines 60-66, stored in the service.\<close>

definition load_itinerary :: "service \<Rightarrow> station list \<Rightarrow> service" where
  "load_itinerary svc stops =
     svc\<lparr>legs := map (\<lambda>i. Leg (stops ! i) (stops ! (i + 1))) [0 ..< length stops - 1],
         ods := concat (map (\<lambda>i. map (\<lambda>j. OD (stops ! i) (stops ! j)) [i + 1 ..< length stops])
                            [0 ..< length stops - 1])\<rparr>"

text \<open>The legs of a sequence of stops by recursion on the sequence; \<open>load_itinerary\<close>
  builds the same list by index (lemma \<open>legs_load_itinerary\<close>).\<close>

fun chain :: "station list \<Rightarrow> leg list" where
  "chain (x # y # zs) = Leg x y # chain (y # zs)"
| "chain _ = []"

text \<open>The leg that \<open>load_itinerary\<close> builds at index \<open>k\<close> of a sequence of stops.\<close>

definition leg_at :: "station list \<Rightarrow> nat \<Rightarrow> leg" where
  "leg_at stops k = Leg (stops ! k) (stops ! (k + 1))"

text \<open>\<^verbatim>\<open>Service.load_passenger_manifest\<close> (lines 76-79): \<open>board\<close> is the inner loop over
  the ODs for one passenger.\<close>

definition board :: "passenger \<Rightarrow> od list \<Rightarrow> od list" where
  "board passenger os =
     map (\<lambda>od. if origin passenger = origin od \<and> destination passenger = destination od
               then od\<lparr>passengers := passengers od @ [passenger]\<rparr> else od) os"

definition load_passenger_manifest :: "service \<Rightarrow> passenger list \<Rightarrow> service" where
  "load_passenger_manifest svc manifest =
     svc\<lparr>ods := fold board manifest (ods svc)\<rparr>"

section \<open>OD\<close>

text \<open>
  \<^verbatim>\<open>OD.legs\<close>. \<open>legs_from\<close> is the innermost loop (lines 139-141 and 147-149), which
  appends every leg of the service leaving \<open>station\<close>; \<open>first_legs\<close> is the loop of lines
  137-141; \<open>next_legs\<close> is one run of the \<^verbatim>\<open>for\<close> loop inside the \<^verbatim>\<open>while\<close> (lines
  145-149), which reads \<^verbatim>\<open>legs[-1]\<close> again at every station of the itinerary and has no
  \<^verbatim>\<open>break\<close>. An error or a non-return of \<^verbatim>\<open>self.service.itinerary\<close> is the result.
\<close>

definition legs_from :: "service \<Rightarrow> station \<Rightarrow> leg list \<Rightarrow> leg list" where
  "legs_from svc station acc =
     fold (\<lambda>leg acc. if station = origin leg then acc @ [leg] else acc) (legs svc) acc"

definition first_legs :: "service \<Rightarrow> od \<Rightarrow> station list \<Rightarrow> leg list" where
  "first_legs svc od stops =
     fold (\<lambda>station acc. if station = origin od then legs_from svc station acc else acc)
          stops []"

definition next_legs :: "service \<Rightarrow> station list \<Rightarrow> leg list \<Rightarrow> leg list" where
  "next_legs svc stops acc =
     fold (\<lambda>station acc.
             if station = destination (last acc) then legs_from svc station acc else acc)
          stops acc"

partial_function (option)
  legs_while :: "service \<Rightarrow> od \<Rightarrow> station list \<Rightarrow> leg list \<Rightarrow> (error + leg list) option"
where
  "legs_while svc od stops acc =
     (if acc = [] then Some (Inl IndexError)
      else if destination (last acc) \<noteq> destination od
        then legs_while svc od stops (next_legs svc stops acc)
      else Some (Inr acc))"

declare legs_while.simps [code]

definition od_legs :: "service \<Rightarrow> od \<Rightarrow> (error + leg list) option" where
  "od_legs svc od =
     (case itinerary svc of
        None \<Rightarrow> None
      | Some (Inl e) \<Rightarrow> Some (Inl e)
      | Some (Inr stops) \<Rightarrow> legs_while svc od stops (first_legs svc od stops))"

text \<open>
  \<^verbatim>\<open>OD.history\<close>. A data point \<^verbatim>\<open>[day_x, count, revenue]\<close> is a triple. Python's
  \<^verbatim>\<open>sorted\<close> is stable, as \<open>sort_key\<close> is.
\<close>

type_synonym point = "int \<times> int \<times> int"

definition update_history :: "point list \<Rightarrow> passenger \<Rightarrow> point list" where
  "update_history history passenger =
     (if length history = 0 then history @ [(sale_day_x passenger, 1, price passenger)]
      else if sale_day_x passenger = fst (last history) then
        (let old_data = last history
         in butlast history @ [(sale_day_x passenger, fst (snd old_data) + 1,
                                snd (snd old_data) + price passenger)])
      else
        (let old_data = last history
         in history @ [(sale_day_x passenger, fst (snd old_data) + 1,
                        snd (snd old_data) + price passenger)]))"

definition history :: "od \<Rightarrow> point list" where
  "history od =
     fold (\<lambda>passenger history. update_history history passenger)
          (sort_key sale_day_x (passengers od)) []"

text \<open>\<open>booked\<close> is the loop of lines 174-179 over any list of passengers; the number and the
  total price of the bookings of a list sold at day \<open>d\<close> or before are \<open>count_upto\<close> and
  \<open>revenue_upto\<close>.\<close>

definition booked :: "passenger list \<Rightarrow> point list" where
  "booked xs = fold (\<lambda>passenger history. update_history history passenger) xs []"

definition count_upto :: "passenger list \<Rightarrow> int \<Rightarrow> int" where
  "count_upto ps d = int (length (filter (\<lambda>p. sale_day_x p \<le> d) ps))"

definition revenue_upto :: "passenger list \<Rightarrow> int \<Rightarrow> int" where
  "revenue_upto ps d = sum_list (map price (filter (\<lambda>p. sale_day_x p \<le> d) ps))"

section \<open>Forecast\<close>

text \<open>
  \<^verbatim>\<open>pricing\<close> and \<^verbatim>\<open>demand_matrix\<close> are dictionaries that the call mutates: they are
  association lists in insertion order (a Python dictionary has no key twice, so the keys of
  a well-formed one are distinct), \<open>map_of\<close> reads a key, \<open>AList.update\<close> writes an existing
  key in place, and every function returns the two dictionaries as it leaves them, also when
  it raises. The functions of this section are the call on dictionaries that are objects of
  their own, as the literals of the repository are: each day has its own row and
  \<^verbatim>\<open>pricing\<close> is no row. The call on dictionaries that may share objects is
  \<open>forecast_refs\<close> of the next section, and lemma \<open>forecast_refs_separate\<close> shows that
  the two agree when \<^verbatim>\<open>pricing\<close> and the rows are pairwise different objects.
\<close>

type_synonym pricing = "(int \<times> int) list"
type_synonym demand_matrix = "(int \<times> (int \<times> int) list) list"

text \<open>\<^verbatim>\<open>demand_matrix[day][price]\<close> and \<^verbatim>\<open>demand_matrix[day][price] = v\<close>; the code
  writes an entry only after it has read the same entry.\<close>

definition get_demand :: "demand_matrix \<Rightarrow> int \<Rightarrow> int \<Rightarrow> error + int" where
  "get_demand dm day p =
     (case map_of dm day of
        None \<Rightarrow> Inl KeyError
      | Some row \<Rightarrow> (case map_of row p of None \<Rightarrow> Inl KeyError | Some d \<Rightarrow> Inr d))"

definition set_demand :: "demand_matrix \<Rightarrow> int \<Rightarrow> int \<Rightarrow> int \<Rightarrow> demand_matrix" where
  "set_demand dm day p v =
     (case map_of dm day of
        None \<Rightarrow> dm
      | Some row \<Rightarrow> AList.update day (AList.update p v row) dm)"

text \<open>Lines 212-214: the loop over \<^verbatim>\<open>upper_price\<close>; \<^verbatim>\<open>and\<close> reads the demand only when
  the first test holds.\<close>

fun cascade :: "int \<Rightarrow> int \<Rightarrow> int list \<Rightarrow> demand_matrix \<Rightarrow> error option \<times> demand_matrix" where
  "cascade day p [] dm = (None, dm)"
| "cascade day p (upper_price # rest) dm =
     (if upper_price \<ge> p then
        (case get_demand dm day upper_price of
           Inl e \<Rightarrow> (Some e, dm)
         | Inr d \<Rightarrow>
             if d > 0 then cascade day p rest (set_demand dm day upper_price (d - 1))
             else cascade day p rest dm)
      else cascade day p rest dm)"

text \<open>Lines 207-214: the \<^verbatim>\<open>while\<close> loop of one day and one price.\<close>

function sell_while ::
  "int list \<Rightarrow> int \<Rightarrow> int \<Rightarrow> point \<Rightarrow> pricing \<Rightarrow> demand_matrix
     \<Rightarrow> error option \<times> point \<times> pricing \<times> demand_matrix"
where
  "sell_while prices day p new_forecast pr dm =
     (case get_demand dm day p of
        Inl e \<Rightarrow> (Some e, new_forecast, pr, dm)
      | Inr d \<Rightarrow>
          if d > 0 then
            (case map_of pr p of
               None \<Rightarrow> (Some KeyError, new_forecast, pr, dm)
             | Some s \<Rightarrow>
                 if s > 0 then
                   (let new_forecast' = (day, fst (snd new_forecast) + 1, snd (snd new_forecast) + p);
                        pr' = AList.update p (s - 1) pr
                    in case cascade day p prices dm of
                         (Some e, dm') \<Rightarrow> (Some e, new_forecast', pr', dm')
                       | (None, dm') \<Rightarrow> sell_while prices day p new_forecast' pr' dm')
                 else (None, new_forecast, pr, dm))
          else (None, new_forecast, pr, dm))"
  by pat_completeness auto
termination
  by (relation "measure (\<lambda>(prices, day, p, new_forecast, pr, dm).
                   case map_of pr p of None \<Rightarrow> 0 | Some s \<Rightarrow> nat s)")
     (auto simp: update_conv')

declare sell_while.simps [simp del]

text \<open>Lines 206-214: the loop over the prices of one day.\<close>

fun sell_prices ::
  "int list \<Rightarrow> int \<Rightarrow> int list \<Rightarrow> point \<Rightarrow> pricing \<Rightarrow> demand_matrix
     \<Rightarrow> error option \<times> point \<times> pricing \<times> demand_matrix"
where
  "sell_prices prices day [] new_forecast pr dm = (None, new_forecast, pr, dm)"
| "sell_prices prices day (p # rest) new_forecast pr dm =
     (case sell_while prices day p new_forecast pr dm of
        (Some e, new_forecast', pr', dm') \<Rightarrow> (Some e, new_forecast', pr', dm')
      | (None, new_forecast', pr', dm') \<Rightarrow> sell_prices prices day rest new_forecast' pr' dm')"

text \<open>Lines 204-216: the loop over the days; \<open>fc\<close> is the list \<^verbatim>\<open>forecast\<close>, which starts
  with the seed point and is never empty.\<close>

fun forecast_days ::
  "int list \<Rightarrow> int list \<Rightarrow> point list \<Rightarrow> pricing \<Rightarrow> demand_matrix
     \<Rightarrow> error option \<times> point list \<times> pricing \<times> demand_matrix"
where
  "forecast_days prices [] fc pr dm = (None, fc, pr, dm)"
| "forecast_days prices (day # rest) fc pr dm =
     (let new_forecast = (day, fst (snd (last fc)), snd (snd (last fc)))
      in case sell_prices prices day prices new_forecast pr dm of
           (Some e, new_forecast', pr', dm') \<Rightarrow> (Some e, fc, pr', dm')
         | (None, new_forecast', pr', dm') \<Rightarrow>
             forecast_days prices rest (fc @ [new_forecast']) pr' dm')"

text \<open>
  \<^verbatim>\<open>OD.forecast\<close> after its first line: \<open>hist\<close> is the value of \<^verbatim>\<open>self.history()\<close>.
  \<^verbatim>\<open>demand_days[0]\<close> raises on an empty demand matrix, at line 194 or at line 199. The
  result is what the call returns or raises, with the two dictionaries as the call leaves
  them.
\<close>

definition forecast_from ::
  "point list \<Rightarrow> pricing \<Rightarrow> demand_matrix \<Rightarrow> (error + point list) \<times> pricing \<times> demand_matrix"
where
  "forecast_from hist pr dm =
     (let demand_days = sort (map fst dm);
          prices = sort (map fst pr)
      in if demand_days = [] then (Inl IndexError, pr, dm)
         else
           (let last_data = (if length hist = 0 then (hd demand_days - 1, 0, 0) else last hist)
            in if fst last_data > hd demand_days then (Inl StaleDemandData, pr, dm)
               else
                 (case forecast_days prices demand_days [last_data] pr dm of
                    (Some e, fc, pr', dm') \<Rightarrow> (Inl e, pr', dm')
                  | (None, fc, pr', dm') \<Rightarrow> (Inr (tl fc), pr', dm'))))"

definition forecast ::
  "od \<Rightarrow> pricing \<Rightarrow> demand_matrix \<Rightarrow> (error + point list) \<times> pricing \<times> demand_matrix"
where
  "forecast od pr dm = forecast_from (history od) pr dm"



section \<open>Forecast on dictionaries that may share objects\<close>

text \<open>
  \<^verbatim>\<open>OD.forecast\<close> again, with the identity of the dictionaries: a store maps the reference
  of a dictionary object to its entries, \<^verbatim>\<open>pricing\<close> is a reference, and
  \<^verbatim>\<open>demand_matrix\<close> maps each day to the reference of its row, so that two days can hold
  the same row and \<^verbatim>\<open>pricing\<close> can be a row. \<^verbatim>\<open>demand_matrix\<close> itself is never written.
  The loops are those of lines 204-216 as in the section above; a write changes the one
  object it names, for every day that holds it. The \<^verbatim>\<open>while\<close> loop ends on every store:
  \<^verbatim>\<open>pricing[price]\<close> is positive when the body runs, the body takes one from it, and
  nothing in the body adds to an entry.
\<close>

type_synonym ref = nat
type_synonym store = "ref \<Rightarrow> (int \<times> int) list"
type_synonym demand_refs = "(int \<times> ref) list"

text \<open>\<^verbatim>\<open>d[k]\<close> and \<^verbatim>\<open>d[k] = v\<close> for the dictionary object at \<open>r\<close>;
  \<^verbatim>\<open>demand_matrix[day][price]\<close> and \<^verbatim>\<open>demand_matrix[day][price] = v\<close>.\<close>

definition get_item :: "store \<Rightarrow> ref \<Rightarrow> int \<Rightarrow> error + int" where
  "get_item h r k = (case map_of (h r) k of None \<Rightarrow> Inl KeyError | Some v \<Rightarrow> Inr v)"

definition set_item :: "store \<Rightarrow> ref \<Rightarrow> int \<Rightarrow> int \<Rightarrow> store" where
  "set_item h r k v = h(r := AList.update k v (h r))"

definition get_demand_refs :: "store \<Rightarrow> demand_refs \<Rightarrow> int \<Rightarrow> int \<Rightarrow> error + int" where
  "get_demand_refs h dmr day p =
     (case map_of dmr day of None \<Rightarrow> Inl KeyError | Some r \<Rightarrow> get_item h r p)"

definition set_demand_refs :: "store \<Rightarrow> demand_refs \<Rightarrow> int \<Rightarrow> int \<Rightarrow> int \<Rightarrow> store" where
  "set_demand_refs h dmr day p v =
     (case map_of dmr day of None \<Rightarrow> h | Some r \<Rightarrow> set_item h r p v)"

fun cascade_refs ::
  "int \<Rightarrow> int \<Rightarrow> int list \<Rightarrow> demand_refs \<Rightarrow> store \<Rightarrow> error option \<times> store"
where
  "cascade_refs day p [] dmr h = (None, h)"
| "cascade_refs day p (upper_price # rest) dmr h =
     (if upper_price \<ge> p then
        (case get_demand_refs h dmr day upper_price of
           Inl e \<Rightarrow> (Some e, h)
         | Inr d \<Rightarrow>
             if d > 0
             then cascade_refs day p rest dmr (set_demand_refs h dmr day upper_price (d - 1))
             else cascade_refs day p rest dmr h)
      else cascade_refs day p rest dmr h)"

text \<open>The entry of a dictionary object, 0 where the key is missing: the measure of the
  \<^verbatim>\<open>while\<close> loop.\<close>

definition item_or_zero :: "store \<Rightarrow> ref \<Rightarrow> int \<Rightarrow> int" where
  "item_or_zero h r k = (case map_of (h r) k of None \<Rightarrow> 0 | Some s \<Rightarrow> s)"

function sell_while_refs ::
  "int list \<Rightarrow> int \<Rightarrow> int \<Rightarrow> point \<Rightarrow> ref \<Rightarrow> demand_refs \<Rightarrow> store
     \<Rightarrow> error option \<times> point \<times> store"
where
  "sell_while_refs prices day p new_forecast pricing dmr h =
     (case get_demand_refs h dmr day p of
        Inl e \<Rightarrow> (Some e, new_forecast, h)
      | Inr d \<Rightarrow>
          if d > 0 then
            (case get_item h pricing p of
               Inl e \<Rightarrow> (Some e, new_forecast, h)
             | Inr s \<Rightarrow>
                 if s > 0 then
                   (let new_forecast' = (day, fst (snd new_forecast) + 1, snd (snd new_forecast) + p);
                        h' = set_item h pricing p (s - 1)
                    in case cascade_refs day p prices dmr h' of
                         (Some e, h'') \<Rightarrow> (Some e, new_forecast', h'')
                       | (None, h'') \<Rightarrow> sell_while_refs prices day p new_forecast' pricing dmr h'')
                 else (None, new_forecast, h))
          else (None, new_forecast, h))"
  by pat_completeness auto
termination
proof (relation "measure (\<lambda>(prices, day, p, new_forecast, pricing, dmr, h).
                   nat (item_or_zero h pricing p))")
  show "wf (measure (\<lambda>(prices, day, p, new_forecast, pricing, dmr, h).
                   nat (item_or_zero h pricing p)))"
    by simp
next
  fix prices :: "int list" and day p :: int and new_forecast :: point and pricing :: ref
    and dmr :: demand_refs and h :: store and d s :: int and new_forecast' :: point
    and h' :: store and e :: "error option" and h'' :: store
  assume d: "get_demand_refs h dmr day p = Inr d" and "0 < d"
    and s: "get_item h pricing p = Inr s" and spos: "0 < s"
    and "new_forecast' = (day, fst (snd new_forecast) + 1, snd (snd new_forecast) + p)"
    and h': "h' = set_item h pricing p (s - 1)"
    and x: "(e, h'') = cascade_refs day p prices dmr h'" and "e = None"
  have non_incr: "item_or_zero (snd (cascade_refs day p ups dmr g)) r k \<le> max 0 (item_or_zero g r k)"
    for ups g r k
  proof (induction ups arbitrary: g)
    case Nil
    then show ?case by simp
  next
    case (Cons u ups)
    have step: "item_or_zero (set_demand_refs g dmr day u (v - 1)) r k \<le> max 0 (item_or_zero g r k)"
      if "get_demand_refs g dmr day u = Inr v" "0 < v" for v
      using that
      by (auto simp: set_demand_refs_def get_demand_refs_def set_item_def get_item_def
            item_or_zero_def update_conv' split: option.splits)
    show ?case
    proof (cases "get_demand_refs g dmr day u")
      case (Inl a)
      then show ?thesis using Cons.IH[of g] by simp
    next
      case (Inr v)
      then show ?thesis
        using Cons.IH[of g] Cons.IH[of "set_demand_refs g dmr day u (v - 1)"] step[of v]
        by (auto simp: max_def split: if_splits)
    qed
  qed
  have "item_or_zero h' pricing p = s - 1"
    by (simp add: h' item_or_zero_def set_item_def update_conv')
  moreover have "item_or_zero h'' pricing p \<le> max 0 (item_or_zero h' pricing p)"
    using non_incr[of prices h' pricing p] x by (metis snd_conv)
  moreover have "item_or_zero h pricing p = s"
    using s by (simp add: get_item_def item_or_zero_def split: option.splits)
  ultimately show "((prices, day, p, new_forecast', pricing, dmr, h''),
          prices, day, p, new_forecast, pricing, dmr, h)
         \<in> measure (\<lambda>(prices, day, p, new_forecast, pricing, dmr, h).
                   nat (item_or_zero h pricing p))"
    using spos by simp
qed

declare sell_while_refs.simps [simp del]


fun sell_prices_refs ::
  "int list \<Rightarrow> int \<Rightarrow> int list \<Rightarrow> point \<Rightarrow> ref \<Rightarrow> demand_refs \<Rightarrow> store
     \<Rightarrow> error option \<times> point \<times> store"
where
  "sell_prices_refs prices day [] new_forecast pricing dmr h = (None, new_forecast, h)"
| "sell_prices_refs prices day (p # rest) new_forecast pricing dmr h =
     (case sell_while_refs prices day p new_forecast pricing dmr h of
        (Some e, new_forecast', h') \<Rightarrow> (Some e, new_forecast', h')
      | (None, new_forecast', h') \<Rightarrow>
          sell_prices_refs prices day rest new_forecast' pricing dmr h')"

fun forecast_days_refs ::
  "int list \<Rightarrow> int list \<Rightarrow> point list \<Rightarrow> ref \<Rightarrow> demand_refs \<Rightarrow> store
     \<Rightarrow> error option \<times> point list \<times> store"
where
  "forecast_days_refs prices [] fc pricing dmr h = (None, fc, h)"
| "forecast_days_refs prices (day # rest) fc pricing dmr h =
     (let new_forecast = (day, fst (snd (last fc)), snd (snd (last fc)))
      in case sell_prices_refs prices day prices new_forecast pricing dmr h of
           (Some e, new_forecast', h') \<Rightarrow> (Some e, fc, h')
         | (None, new_forecast', h') \<Rightarrow>
             forecast_days_refs prices rest (fc @ [new_forecast']) pricing dmr h')"

definition forecast_refs_from ::
  "point list \<Rightarrow> ref \<Rightarrow> demand_refs \<Rightarrow> store \<Rightarrow> (error + point list) \<times> store"
where
  "forecast_refs_from hist pricing dmr h =
     (let demand_days = sort (map fst dmr);
          prices = sort (map fst (h pricing))
      in if demand_days = [] then (Inl IndexError, h)
         else
           (let last_data = (if length hist = 0 then (hd demand_days - 1, 0, 0) else last hist)
            in if fst last_data > hd demand_days then (Inl StaleDemandData, h)
               else
                 (case forecast_days_refs prices demand_days [last_data] pricing dmr h of
                    (Some e, fc, h') \<Rightarrow> (Inl e, h')
                  | (None, fc, h') \<Rightarrow> (Inr (tl fc), h'))))"

definition forecast_refs ::
  "od \<Rightarrow> ref \<Rightarrow> demand_refs \<Rightarrow> store \<Rightarrow> (error + point list) \<times> store"
where
  "forecast_refs od pricing dmr h = forecast_refs_from (history od) pricing dmr h"

text \<open>The demand matrix that a store holds under the references of the days, and
  \<^verbatim>\<open>pricing\<close> and the rows being pairwise different objects.\<close>

definition dm_of :: "store \<Rightarrow> demand_refs \<Rightarrow> demand_matrix" where
  "dm_of h dmr = map (\<lambda>(day, r). (day, h r)) dmr"

definition separate :: "ref \<Rightarrow> demand_refs \<Rightarrow> bool" where
  "separate pricing dmr = distinct (pricing # map snd dmr)"

section \<open>The forecast of the specification\<close>

text \<open>
  The forecast as the specification describes it, on a state of its own: the cumulative
  count and revenue, the seats left at each price and the demand left at each day and price,
  the last two as total functions. \<open>spec_sell\<close> is one sale on \<open>day\<close> at price \<open>p\<close>: one
  more booking, \<open>p\<close> more revenue, one seat less at \<open>p\<close>, and one unit less of the day's
  demand at every tier \<open>q \<ge> p\<close> whose demand is positive, all at once. \<open>spec_tier\<close> sells
  while the demand of the day at \<open>p\<close> and the seats at \<open>p\<close> are both positive;
  \<open>spec_days\<close> runs the tiers in the order given for each day in the order given and gives
  one point per day; \<open>spec_forecast\<close> runs it on the days and the prices in ascending
  order, from the count and revenue of the last history point, or from zero.
\<close>

record sim =
  sold :: int
  revenue :: int
  seats :: "int \<Rightarrow> int"
  demand :: "int \<Rightarrow> int \<Rightarrow> int"

definition spec_sell :: "int set \<Rightarrow> int \<Rightarrow> int \<Rightarrow> sim \<Rightarrow> sim" where
  "spec_sell tiers day p \<sigma> =
     \<lparr>sold = sold \<sigma> + 1,
      revenue = revenue \<sigma> + p,
      seats = (seats \<sigma>)(p := seats \<sigma> p - 1),
      demand = (demand \<sigma>)(day := (\<lambda>q. if q \<in> tiers \<and> p \<le> q \<and> 0 < demand \<sigma> day q
                                          then demand \<sigma> day q - 1 else demand \<sigma> day q))\<rparr>"

function spec_tier :: "int set \<Rightarrow> int \<Rightarrow> int \<Rightarrow> sim \<Rightarrow> sim" where
  "spec_tier tiers day p \<sigma> =
     (if 0 < demand \<sigma> day p \<and> 0 < seats \<sigma> p
      then spec_tier tiers day p (spec_sell tiers day p \<sigma>) else \<sigma>)"
  by pat_completeness auto
termination
  by (relation "measure (\<lambda>(tiers, day, p, \<sigma>). nat (seats \<sigma> p))")
     (auto simp: spec_sell_def)

declare spec_tier.simps [simp del]

fun spec_days :: "int list \<Rightarrow> int list \<Rightarrow> sim \<Rightarrow> point list \<times> sim" where
  "spec_days tiers [] \<sigma> = ([], \<sigma>)"
| "spec_days tiers (day # rest) \<sigma> =
     (let \<sigma>' = fold (spec_tier (set tiers) day) tiers \<sigma>;
          (pts, \<sigma>'') = spec_days tiers rest \<sigma>'
      in ((day, sold \<sigma>', revenue \<sigma>') # pts, \<sigma>''))"

text \<open>What the two dictionaries hold, as total functions (0 where a key is missing).\<close>

definition seats_of :: "pricing \<Rightarrow> int \<Rightarrow> int" where
  "seats_of pr p = (case map_of pr p of None \<Rightarrow> 0 | Some s \<Rightarrow> s)"

definition demand_of :: "demand_matrix \<Rightarrow> int \<Rightarrow> int \<Rightarrow> int" where
  "demand_of dm day p = (case get_demand dm day p of Inl e \<Rightarrow> 0 | Inr d \<Rightarrow> d)"

definition spec_forecast :: "point list \<Rightarrow> pricing \<Rightarrow> demand_matrix \<Rightarrow> point list \<times> sim" where
  "spec_forecast hist pr dm =
     spec_days (sorted_list_of_set (fst ` set pr)) (sorted_list_of_set (fst ` set dm))
       \<lparr>sold = (if hist = [] then 0 else fst (snd (last hist))),
        revenue = (if hist = [] then 0 else snd (snd (last hist))),
        seats = seats_of pr, demand = demand_of dm\<rparr>"

text \<open>Every row of the demand matrix has an entry for every price of the pricing.\<close>

definition complete_rows :: "pricing \<Rightarrow> demand_matrix \<Rightarrow> bool" where
  "complete_rows pr dm = (\<forall>(day, row)\<in>set dm. fst ` set pr \<subseteq> fst ` set row)"

text \<open>For the proofs: the demand of every day of \<open>ds\<close> at every tier can be read, every
  tier has a seat count, and the state of the specification that a point and the two
  dictionaries stand for.\<close>

definition covers :: "int set \<Rightarrow> int set \<Rightarrow> demand_matrix \<Rightarrow> bool" where
  "covers ds tiers dm = (\<forall>day\<in>ds. \<forall>q\<in>tiers. \<exists>d. get_demand dm day q = Inr d)"

definition priced :: "int set \<Rightarrow> pricing \<Rightarrow> bool" where
  "priced tiers pr = (\<forall>p\<in>tiers. \<exists>s. map_of pr p = Some s)"

definition abs_sim :: "point \<Rightarrow> pricing \<Rightarrow> demand_matrix \<Rightarrow> sim" where
  "abs_sim nf pr dm =
     \<lparr>sold = fst (snd nf), revenue = snd (snd nf), seats = seats_of pr, demand = demand_of dm\<rparr>"

section \<open>The data of the repository\<close>

text \<open>The stations, the service, the manifest, the pricing and the demand matrix of lines
  235-339; the departure date is an arbitrary day. \<open>avi\<close> is a fourth station, and
  \<open>service4\<close> a service that calls at it between \<open>lpd\<close> and \<open>msc\<close>.\<close>

definition ply :: station where "ply = Station 0 ''ply''"
definition lpd :: station where "lpd = Station 1 ''lpd''"
definition msc :: station where "msc = Station 2 ''msc''"

definition avi :: station where "avi = Station 3 ''avi''"

definition service3 :: service where
  "service3 = load_itinerary (Service ''7601'' (Date 739200)) [ply, lpd, msc]"

definition service4 :: service where
  "service4 = load_itinerary (Service ''7601'' (Date 739200)) [ply, lpd, avi, msc]"

definition manifest_data :: "passenger list" where
  "manifest_data =
     [Passenger ply lpd (- 30) 20, Passenger ply lpd (- 25) 30, Passenger ply lpd (- 20) 40,
      Passenger ply lpd (- 20) 40, Passenger ply msc (- 10) 50]"

definition service_data :: service where
  "service_data =
     load_passenger_manifest (load_itinerary (Service ''7601'' (Date 739200)) [ply, lpd, msc])
       manifest_data"

definition od_ply_lpd :: od where
  "od_ply_lpd = ods service_data ! 0"

definition pricing_data :: pricing where
  "pricing_data = [(10, 0), (20, 2), (30, 5), (40, 5), (50, 5)]"

definition demand_matrix_data :: demand_matrix where
  "demand_matrix_data =
     [(- 7, [(10, 5), (20, 1), (30, 0), (40, 0), (50, 0)]),
      (- 6, [(10, 5), (20, 2), (30, 1), (40, 1), (50, 1)]),
      (- 5, [(10, 5), (20, 4), (30, 3), (40, 2), (50, 1)]),
      (- 4, [(10, 5), (20, 5), (30, 4), (40, 3), (50, 1)]),
      (- 3, [(10, 5), (20, 5), (30, 5), (40, 3), (50, 2)]),
      (- 2, [(10, 5), (20, 5), (30, 5), (40, 4), (50, 3)]),
      (- 1, [(10, 5), (20, 5), (30, 5), (40, 5), (50, 4)]),
      (0, [(10, 5), (20, 5), (30, 5), (40, 5), (50, 5)])]"

text \<open>The pricing and the demand matrix of the repository in a store: the pricing at
  reference 0, the rows of the eight days at references 1 to 8. \<open>store_one\<close> holds one
  dictionary, used as the pricing and as the row of day 0; \<open>store_two\<close> holds a pricing
  and one row, used for day -1 and for day 0.\<close>

definition store_data :: store where
  "store_data r = (if r = 0 then pricing_data
                   else if r \<le> 8 then snd (demand_matrix_data ! (r - 1)) else [])"

definition demand_refs_data :: demand_refs where
  "demand_refs_data = [(- 7, 1), (- 6, 2), (- 5, 3), (- 4, 4), (- 3, 5), (- 2, 6), (- 1, 7), (0, 8)]"

definition store_one :: store where
  "store_one r = (if r = 0 then [(10, 2)] else [])"

definition store_two :: store where
  "store_two r = (if r = 0 then [(10, 3), (20, 3)] else if r = 1 then [(10, 2), (20, 2)] else [])"

section \<open>Properties\<close>

subsection \<open>The data of the repository\<close>

lemma od_ply_lpd_eq:
  "od_ply_lpd = \<lparr>origin = ply, destination = lpd,
      passengers = [Passenger ply lpd (- 30) 20, Passenger ply lpd (- 25) 30,
                    Passenger ply lpd (- 20) 40, Passenger ply lpd (- 20) 40]\<rparr>"
  by code_simp

lemma history_od_ply_lpd:
  "history od_ply_lpd = [(- 30, 1, 20), (- 25, 2, 50), (- 20, 4, 130)]"
  by code_simp

subsection \<open>Itinerary of a service\<close>

lemma sources_filter:
  "sources origins destinations = filter (\<lambda>s. s \<notin> set destinations) origins"
proof -
  have "fold (\<lambda>station itinerary.
                if station \<notin> set destinations then itinerary @ [station] else itinerary) xs acc
        = acc @ filter (\<lambda>s. s \<notin> set destinations) xs" for xs acc
    by (induction xs arbitrary: acc) auto
  then show ?thesis by (simp add: sources_def)
qed

lemma map_upt_chain: "map (\<lambda>i. Leg (xs ! i) (xs ! (i + 1))) [0 ..< length xs - 1] = chain xs"
proof (induction xs rule: chain.induct)
  case (1 x y zs)
  have "map (\<lambda>i. Leg ((x # y # zs) ! i) ((x # y # zs) ! (i + 1))) [0 ..< length (x # y # zs) - 1]
      = map (\<lambda>i. Leg ((x # y # zs) ! i) ((x # y # zs) ! (i + 1))) [0 ..< Suc (length (y # zs) - 1)]"
    by simp
  also have "\<dots> = Leg x y
       # map (\<lambda>i. Leg ((y # zs) ! i) ((y # zs) ! (i + 1))) [0 ..< length (y # zs) - 1]"
    by (simp only: map_upt_Suc) simp
  finally show ?case using 1 by simp
qed simp_all

lemma legs_load_itinerary: "legs (load_itinerary svc stops) = chain stops"
  using map_upt_chain[of stops] by (simp add: load_itinerary_def)

lemma append_stops_chain: "append_stops (chain (x # rest)) (pre @ [x]) = pre @ x # rest"
proof (induction rest arbitrary: x pre)
  case Nil
  then show ?case by (simp add: append_stops_def)
next
  case (Cons y zs)
  have "append_stops (chain (x # y # zs)) (pre @ [x]) = append_stops (chain (y # zs)) ((pre @ [x]) @ [y])"
    by (simp add: append_stops_def Leg_def)
  then show ?case using Cons[of y "pre @ [x]"] by simp
qed

lemma origins_chain: "map origin (chain xs) = butlast xs"
  by (induction xs rule: chain.induct) (simp_all add: Leg_def)

lemma destinations_chain: "map destination (chain xs) = tl xs"
  by (induction xs rule: chain.induct) (simp_all add: Leg_def)

lemma sources_chain:
  assumes "distinct xs" "2 \<le> length xs"
  shows "sources (butlast xs) (tl xs) = [hd xs]"
proof -
  obtain x y zs where xs: "xs = x # y # zs"
    using assms(2) by (cases xs; cases "tl xs") auto
  have "set (butlast (y # zs)) \<subseteq> set (y # zs)" by (auto dest: in_set_butlastD)
  then have "filter (\<lambda>s. s \<notin> set (y # zs)) (butlast (y # zs)) = []"
    by (auto simp: filter_empty_conv)
  then show ?thesis using assms(1) unfolding xs sources_filter by simp
qed

lemma itinerary_load_itinerary:
  assumes "distinct stops" "2 \<le> length stops"
  shows "itinerary (load_itinerary svc stops) = Some (Inr stops)"
proof -
  obtain x rest where xs: "stops = x # rest" "rest \<noteq> []"
    using assms(2) by (cases stops) force+
  have "distinct (butlast stops @ [last stops])" using assms(1) xs by simp
  then have last: "last stops \<notin> set (butlast stops)" by simp
  have first: "x \<in> set (butlast stops)" using xs by (cases rest) auto
  have ext: "append_stops (chain stops) [x] = stops"
    using append_stops_chain[of x rest "[]"] xs by simp
  have "itinerary (load_itinerary svc stops) = itinerary_while (chain stops) (butlast stops) [x]"
    using sources_chain[OF assms] xs
    by (simp add: itinerary_def legs_load_itinerary origins_chain destinations_chain)
  also have "\<dots> = itinerary_while (chain stops) (butlast stops) stops"
    using first ext by (subst itinerary_while.simps) simp
  also have "\<dots> = Some (Inr stops)"
    using last xs by (subst itinerary_while.simps) simp
  finally show ?thesis .
qed

text \<open>
  C4. For every sequence of at least two pairwise distinct stations, the itinerary of a
  service after \<^verbatim>\<open>load_itinerary\<close> of that sequence is the sequence itself: the call returns,
  and returns no error.
\<close>

theorem itinerary_round_trip:
  "distinct stops \<Longrightarrow> 2 \<le> length stops \<Longrightarrow>
   itinerary (load_itinerary svc stops) = Some (Inr stops)"
  by (rule itinerary_load_itinerary)

theorem itinerary_round_trip_witness:
  "distinct [ply, lpd, msc] \<and> 2 \<le> length [ply, lpd, msc]
   \<and> itinerary (load_itinerary (Service ''7601'' (Date 739200)) [ply, lpd, msc])
       = Some (Inr [ply, lpd, msc])"
proof -
  have d: "distinct [ply, lpd, msc]" by code_simp
  have l: "2 \<le> length [ply, lpd, msc]" by simp
  show ?thesis using itinerary_round_trip [OF d l] d l by simp
qed

text \<open>
  C7, as the code has it. When every origin of a leg is also the destination of a leg
  (there is no source stop; a service without legs is such a case), the itinerary fails:
  the list of sources is empty and reading its last element raises \<^verbatim>\<open>IndexError\<close>.
\<close>

theorem itinerary_no_source:
  "\<forall>l\<in>set (legs svc). origin l \<in> destination ` set (legs svc) \<Longrightarrow>
   itinerary svc = Some (Inl IndexError)"
proof -
  assume a: "\<forall>l\<in>set (legs svc). origin l \<in> destination ` set (legs svc)"
  have "sources (map origin (legs svc)) (map destination (legs svc)) = []"
    using a by (simp add: sources_filter)
  then show ?thesis by (simp add: itinerary_def itinerary_while.simps)
qed

theorem itinerary_no_source_witness:
  "itinerary ((Service ''7601'' (Date 739200))\<lparr>legs := [Leg ply lpd, Leg lpd ply]\<rparr>)
     = Some (Inl IndexError)"
  using itinerary_no_source [of "(Service ''7601'' (Date 739200))\<lparr>legs := [Leg ply lpd, Leg lpd ply]\<rparr>"]
  by (simp add: Leg_def Service_def)

text \<open>
  C7, as the claim has it, fails: two legs that leave the same stop, and two legs that do
  not connect, both give a list of stops and no error.
\<close>

theorem itinerary_branching_counterexample:
  "itinerary ((Service ''7601'' (Date 739200))\<lparr>legs := [Leg ply lpd, Leg ply msc]\<rparr>)
     = Some (Inr [ply, ply, lpd])
   \<and> itinerary ((Service ''7601'' (Date 739200))\<lparr>legs := [Leg ply lpd, Leg msc avi]\<rparr>)
     = Some (Inr [ply, msc, avi])"
  by code_simp

subsection \<open>Legs of an OD\<close>

lemma legs_while_stuck:
  assumes "acc \<noteq> []" "destination (last acc) \<noteq> destination od"
    "next_legs svc stops acc = acc"
  shows "legs_while svc od stops acc = None"
proof (rule ccontr)
  assume "legs_while svc od stops acc \<noteq> None"
  then obtain y where y: "legs_while svc od stops acc = Some y" by auto
  have "(svc, od, stops, acc) \<noteq> (svc, od, stops, acc)"
  proof (rule legs_while.raw_induct
      [where P = "\<lambda>s d st a y. (s, d, st, a) \<noteq> (svc, od, stops, acc)", OF _ y])
    fix f s d st a r
    assume IH: "\<And>s d st a r. f s d st a = Some r \<Longrightarrow> (s, d, st, a) \<noteq> (svc, od, stops, acc)"
      and step: "(if a = [] then Some (Inl IndexError)
           else if destination (last a) \<noteq> destination d then f s d st (next_legs s st a)
           else Some (Inr a)) = Some r"
    show "(s, d, st, a) \<noteq> (svc, od, stops, acc)"
    proof
      assume eq: "(s, d, st, a) = (svc, od, stops, acc)"
      then have "f svc od stops acc = Some r" using step assms by simp
      then show False using IH by blast
    qed
  qed
  then show False by simp
qed

lemma od_legs_load_itinerary:
  assumes "distinct stops" "2 \<le> length stops"
  shows "od_legs (load_itinerary svc stops) od =
     legs_while (load_itinerary svc stops) od stops
       (first_legs (load_itinerary svc stops) od stops)"
  by (simp add: od_legs_def itinerary_load_itinerary[OF assms])

lemma legs_from_filter:
  "legs_from svc station acc = acc @ filter (\<lambda>leg. station = origin leg) (legs svc)"
proof -
  have "fold (\<lambda>leg acc. if station = origin leg then acc @ [leg] else acc) ls acc
        = acc @ filter (\<lambda>leg. station = origin leg) ls" for ls
    by (induction ls arbitrary: acc) auto
  then show ?thesis by (simp add: legs_from_def)
qed

lemma first_legs_Nil: "origin od \<notin> set stops \<Longrightarrow> first_legs svc od stops = []"
proof -
  have "origin od \<notin> set stops \<Longrightarrow>
    fold (\<lambda>station acc. if station = origin od then legs_from svc station acc else acc)
      stops acc = acc" for acc
    by (induction stops arbitrary: acc) auto
  then show "origin od \<notin> set stops \<Longrightarrow> first_legs svc od stops = []"
    by (simp add: first_legs_def)
qed

lemma filter_eq_upt: "filter (\<lambda>m. m = k) [0 ..< N] = (if k < N then [k] else [])"
  by (induction N) auto

lemma chain_leg_at: "chain stops = map (leg_at stops) [0 ..< length stops - 1]"
proof -
  have "leg_at stops = (\<lambda>i. Leg (stops ! i) (stops ! (i + 1)))"
    by (rule ext) (simp add: leg_at_def)
  then show ?thesis using map_upt_chain[of stops] by simp
qed

lemma legs_from_chain:
  assumes "distinct stops" "k < length stops"
  shows "legs_from (load_itinerary svc stops) (stops ! k) acc =
           acc @ (if k + 1 < length stops then [leg_at stops k] else [])"
proof -
  have "filter (\<lambda>leg. stops ! k = origin leg) (map (leg_at stops) [0 ..< length stops - 1])
        = map (leg_at stops) (filter (\<lambda>m. m = k) [0 ..< length stops - 1])"
    unfolding filter_map
    by (rule arg_cong[where f = "map (leg_at stops)"], rule filter_cong)
       (use assms in \<open>auto simp: leg_at_def Leg_def nth_eq_iff_index_eq\<close>)
  then show ?thesis
    by (auto simp: legs_from_filter legs_load_itinerary chain_leg_at filter_eq_upt)
qed

lemma fold_stops:
  "fold f stops acc = fold (\<lambda>k. f (stops ! k)) [0 ..< length stops] acc"
proof -
  have "fold f (map (\<lambda>k. stops ! k) [0 ..< length stops]) acc
        = fold (\<lambda>k. f (stops ! k)) [0 ..< length stops] acc"
    by (simp add: fold_map o_def)
  then show ?thesis by (simp add: map_nth)
qed

lemma first_legs_chain:
  assumes "distinct stops" "i + 1 < length stops" "origin od = stops ! i"
  shows "first_legs (load_itinerary svc stops) od stops = [leg_at stops i]"
proof -
  let ?svc = "load_itinerary svc stops"
  have step: "fold (\<lambda>k acc. if stops ! k = origin od then legs_from ?svc (stops ! k) acc else acc)
                [0 ..< N] [] = (if i < N then [leg_at stops i] else [])" if "N \<le> length stops" for N
    using that
  proof (induction N)
    case 0
    then show ?case by simp
  next
    case (Suc N)
    have "(stops ! N = stops ! i) = (N = i)"
      using assms(1,2) Suc.prems by (simp add: nth_eq_iff_index_eq)
    then show ?case
      using Suc assms legs_from_chain[OF assms(1), of i svc "[]"] by auto
  qed
  show ?thesis
    unfolding first_legs_def fold_stops[of _ stops]
    using step[of "length stops"] assms(2) by simp
qed

lemma next_legs_chain_aux:
  assumes "distinct stops" "i < m" "m + 1 \<le> length stops" "lo \<le> m \<or> m + 1 = length stops"
    "lo \<le> length stops"
  shows "fold (\<lambda>k acc. if stops ! k = destination (last acc)
                         then legs_from (load_itinerary svc stops) (stops ! k) acc else acc)
           [lo ..< length stops] (map (leg_at stops) [i ..< m])
         = map (leg_at stops) [i ..< length stops - 1]"
  using assms(2-5)
proof (induction "length stops - lo" arbitrary: lo m)
  case 0
  then have "lo = length stops" by simp
  then have "m + 1 = length stops" using 0 by auto
  then have "m = length stops - 1" by arith
  then show ?case using \<open>lo = length stops\<close> by simp
next
  case (Suc d)
  let ?n = "length stops"
  let ?f = "\<lambda>k acc. if stops ! k = destination (last acc)
                         then legs_from (load_itinerary svc stops) (stops ! k) acc else acc"
  have lo: "lo < ?n" using Suc.hyps(2) by simp
  have upt: "[lo ..< ?n] = lo # [Suc lo ..< ?n]" using lo by (simp add: upt_rec)
  have unf: "fold ?f [lo ..< ?n] A = fold ?f [Suc lo ..< ?n] (?f lo A)" for A
    by (subst upt) simp
  have lastm: "destination (last (map (leg_at stops) [i ..< m])) = stops ! m"
    using Suc.prems(1) by (simp add: last_map leg_at_def Leg_def)
  have eq: "(stops ! lo = stops ! m) = (lo = m)"
    using assms(1) lo Suc.prems(2) by (simp add: nth_eq_iff_index_eq)
  show ?case
  proof (cases "lo = m")
    case False
    then have 1: "?f lo (map (leg_at stops) [i ..< m]) = map (leg_at stops) [i ..< m]"
      using lastm eq by simp
    have "Suc lo \<le> m \<or> m + 1 = ?n" using Suc.prems(3) False by auto
    from Suc.hyps(1)[of "Suc lo" m, OF _ Suc.prems(1,2) this] Suc.hyps(2) lo
    show ?thesis unfolding unf 1 by simp
  next
    case True
    show ?thesis
    proof (cases "m + 1 < ?n")
      case True
      have 1: "?f lo (map (leg_at stops) [i ..< m]) = map (leg_at stops) [i ..< Suc m]"
        using lastm eq \<open>lo = m\<close> True Suc.prems(1) legs_from_chain[OF assms(1), of m svc]
        by simp
      from Suc.hyps(1)[of "Suc lo" "Suc m"] Suc.hyps(2) lo True \<open>lo = m\<close> Suc.prems(1)
      show ?thesis unfolding unf 1 by simp
    next
      case False
      then have mn: "m + 1 = ?n" using Suc.prems(2) by simp
      have 1: "?f lo (map (leg_at stops) [i ..< m]) = map (leg_at stops) [i ..< m]"
        using lastm eq \<open>lo = m\<close> mn legs_from_chain[OF assms(1), of m svc] lo
        by simp
      from Suc.hyps(1)[of "Suc lo" m, OF _ Suc.prems(1,2)] Suc.hyps(2) lo mn
      show ?thesis unfolding unf 1 by simp
    qed
  qed
qed

lemma next_legs_chain:
  assumes "distinct stops" "i < m" "m + 1 \<le> length stops"
  shows "next_legs (load_itinerary svc stops) stops (map (leg_at stops) [i ..< m])
         = map (leg_at stops) [i ..< length stops - 1]"
  unfolding next_legs_def fold_stops[of _ stops]
  using next_legs_chain_aux[OF assms, of 0 svc] by simp

text \<open>
  \<^verbatim>\<open>OD.legs\<close> on a service loaded from pairwise distinct stops, for the OD from stop \<open>i\<close>
  to a later stop \<open>j\<close>: the legs from \<open>i\<close> to \<open>j\<close> when \<open>j\<close> is the stop after \<open>i\<close> or the
  last stop, and no return otherwise.
\<close>

lemma od_legs_on_loaded_itinerary:
  assumes "distinct stops" "i < j" "j < length stops"
    "origin od = stops ! i" "destination od = stops ! j"
  shows "od_legs (load_itinerary svc stops) od =
           (if j = i + 1 \<or> j + 1 = length stops
            then Some (Inr (map (leg_at stops) [i ..< j])) else None)"
proof -
  let ?svc = "load_itinerary svc stops"
  let ?n = "length stops"
  have len: "2 \<le> ?n" using assms(2,3) by simp
  have first: "first_legs ?svc od stops = map (leg_at stops) [i ..< i + 1]"
    using first_legs_chain[OF assms(1) _ assms(4), of svc] assms(2,3) by simp
  have start: "od_legs ?svc od = legs_while ?svc od stops (map (leg_at stops) [i ..< i + 1])"
    using od_legs_load_itinerary[OF assms(1) len, of svc od] first by simp
  have dest: "destination (last (map (leg_at stops) [i ..< m])) = stops ! m" if "i < m" for m
    using that by (simp add: last_map leg_at_def Leg_def)
  have same: "(stops ! m = stops ! j) = (m = j)" if "m < ?n" for m
    using assms(1,3) that by (simp add: nth_eq_iff_index_eq)
  show ?thesis
  proof (cases "j = i + 1")
    case True
    then show ?thesis
      unfolding start using dest[of "i + 1"] assms(5)
      by (subst legs_while.simps) simp
  next
    case False
    then have far: "i + 1 < j" using assms(2) by simp
    have nxt: "next_legs ?svc stops (map (leg_at stops) [i ..< i + 1])
                 = map (leg_at stops) [i ..< ?n - 1]"
      using next_legs_chain[OF assms(1), of i "i + 1" svc] assms(2,3) by simp
    have ne: "map (leg_at stops) [i ..< ?n - 1] \<noteq> []" using far assms(3) by simp
    have dlast: "destination (last (map (leg_at stops) [i ..< ?n - 1])) = stops ! (?n - 1)"
      using dest[of "?n - 1"] far assms(3) by simp
    have step: "od_legs ?svc od = legs_while ?svc od stops (map (leg_at stops) [i ..< ?n - 1])"
      unfolding start using dest[of "i + 1"] assms(5) same[of "i + 1"] far assms(3) nxt
      by (subst legs_while.simps) simp
    show ?thesis
    proof (cases "j + 1 = ?n")
      case True
      then have jn: "?n - 1 = j" by simp
      have "legs_while ?svc od stops (map (leg_at stops) [i ..< j])
              = Some (Inr (map (leg_at stops) [i ..< j]))"
        using dest[of j] assms(2,5) by (subst legs_while.simps) simp
      then show ?thesis
        unfolding step jn using True by simp
    next
      case last: False
      have "next_legs ?svc stops (map (leg_at stops) [i ..< ?n - 1])
              = map (leg_at stops) [i ..< ?n - 1]"
        using next_legs_chain[OF assms(1), of i "?n - 1" svc] far assms(3) by simp
      moreover have "destination (last (map (leg_at stops) [i ..< ?n - 1])) \<noteq> destination od"
        using dlast assms(5) same[of "?n - 1"] last assms(3) by simp
      ultimately have "legs_while ?svc od stops (map (leg_at stops) [i ..< ?n - 1]) = None"
        using ne by (intro legs_while_stuck)
      then show ?thesis using step False last by simp
    qed
  qed
qed

text \<open>
  C5 at a service of four stops \<open>ply, lpd, avi, msc\<close> and its OD from \<open>ply\<close> to \<open>avi\<close>:
  \<^verbatim>\<open>OD.legs\<close> does not return. The first run of the inner \<^verbatim>\<open>for\<close> loop appends the leg to
  \<open>avi\<close> and, going on, the leg to \<open>msc\<close>; from then on the last destination is \<open>msc\<close>, no
  leg leaves it, and the \<^verbatim>\<open>while\<close> condition holds forever.
\<close>

theorem od_legs_four_stops_diverges: "od_legs service4 (OD ply avi) = None"
proof -
  have f: "first_legs service4 (OD ply avi) [ply, lpd, avi, msc] = [Leg ply lpd]"
    by code_simp
  have n1: "next_legs service4 [ply, lpd, avi, msc] [Leg ply lpd]
              = [Leg ply lpd, Leg lpd avi, Leg avi msc]"
    by code_simp
  have n2: "next_legs service4 [ply, lpd, avi, msc] [Leg ply lpd, Leg lpd avi, Leg avi msc]
              = [Leg ply lpd, Leg lpd avi, Leg avi msc]"
    by code_simp
  have d1: "destination (last [Leg ply lpd]) \<noteq> destination (OD ply avi)"
    by code_simp
  have d2: "destination (last [Leg ply lpd, Leg lpd avi, Leg avi msc]) \<noteq> destination (OD ply avi)"
    by code_simp
  have dist: "distinct [ply, lpd, avi, msc]" by code_simp
  have "od_legs service4 (OD ply avi)
          = legs_while service4 (OD ply avi) [ply, lpd, avi, msc] [Leg ply lpd]"
    unfolding service4_def
    using od_legs_load_itinerary[OF dist, of _ "OD ply avi"] f[unfolded service4_def] by simp
  also have "\<dots> = legs_while service4 (OD ply avi) [ply, lpd, avi, msc]
                      [Leg ply lpd, Leg lpd avi, Leg avi msc]"
    using d1 n1 by (subst legs_while.simps) simp
  also have "\<dots> = None"
    using d2 n2 by (intro legs_while_stuck) simp_all
  finally show ?thesis .
qed

text \<open>
  C6, as the code has it. When the itinerary is resolved and the origin of the OD is not a
  stop of it, \<^verbatim>\<open>OD.legs\<close> fails: no first leg is found and reading the last element of the
  empty list of legs raises \<^verbatim>\<open>IndexError\<close>.
\<close>

theorem od_legs_origin_not_found:
  "itinerary svc = Some (Inr stops) \<Longrightarrow> origin od \<notin> set stops \<Longrightarrow>
   od_legs svc od = Some (Inl IndexError)"
  by (simp add: od_legs_def first_legs_Nil legs_while.simps)

theorem od_legs_origin_not_found_witness:
  "itinerary service3 = Some (Inr [ply, lpd, msc])
   \<and> origin (OD avi msc) \<notin> set [ply, lpd, msc]
   \<and> od_legs service3 (OD avi msc) = Some (Inl IndexError)"
proof -
  have i: "itinerary service3 = Some (Inr [ply, lpd, msc])" by code_simp
  have o: "origin (OD avi msc) \<notin> set [ply, lpd, msc]" by code_simp
  show ?thesis using od_legs_origin_not_found [OF i o] i o by simp
qed

text \<open>
  C6, as the claim has it, fails: for the OD from \<open>lpd\<close> back to \<open>ply\<close> on the service
  \<open>ply, lpd, msc\<close> the destination is never reached, and \<^verbatim>\<open>OD.legs\<close> raises nothing: it does
  not return.
\<close>

theorem od_legs_unreachable_counterexample: "od_legs service3 (OD lpd ply) = None"
proof -
  have f: "first_legs service3 (OD lpd ply) [ply, lpd, msc] = [Leg lpd msc]"
    by code_simp
  have n2: "next_legs service3 [ply, lpd, msc] [Leg lpd msc] = [Leg lpd msc]"
    by code_simp
  have d2: "destination (last [Leg lpd msc]) \<noteq> destination (OD lpd ply)" by code_simp
  have dist: "distinct [ply, lpd, msc]" by code_simp
  have "od_legs service3 (OD lpd ply)
          = legs_while service3 (OD lpd ply) [ply, lpd, msc] [Leg lpd msc]"
    unfolding service3_def
    using od_legs_load_itinerary[OF dist, of _ "OD lpd ply"] f[unfolded service3_def] by simp
  also have "\<dots> = None"
    using d2 n2 by (intro legs_while_stuck) simp_all
  finally show ?thesis .
qed

subsection \<open>History of an OD\<close>

lemma booked_snoc: "booked (xs @ [x]) = update_history (booked xs) x"
  by (simp add: booked_def)

lemma sum_list_insort_key:
  "sum_list (map g (insort_key f x xs)) = (g x :: int) + sum_list (map g xs)"
  by (induction xs) (auto simp: algebra_simps)

lemma sum_list_sort_key: "sum_list (map g (sort_key f xs)) = sum_list (map (g::'a \<Rightarrow> int) xs)"
  by (induction xs) (simp_all add: sum_list_insort_key)

lemma count_upto_sort: "count_upto (sort_key sale_day_x ps) d = count_upto ps d"
  by (simp add: count_upto_def filter_sort)

lemma revenue_upto_sort: "revenue_upto (sort_key sale_day_x ps) d = revenue_upto ps d"
  by (simp add: revenue_upto_def filter_sort sum_list_sort_key)

lemma booked_invariant:
  "sorted (map sale_day_x xs) \<Longrightarrow>
     map fst (booked xs) = remdups_adj (map sale_day_x xs)
   \<and> (\<forall>pt\<in>set (booked xs). pt = (fst pt, count_upto xs (fst pt), revenue_upto xs (fst pt)))
   \<and> (xs \<noteq> [] \<longrightarrow> booked xs \<noteq> [] \<and>
        last (booked xs) = (sale_day_x (last xs), int (length xs), sum_list (map price xs)))
   \<and> (\<forall>pt\<in>set (butlast (booked xs)). fst pt < sale_day_x (last xs))"
proof (induction xs rule: rev_induct)
  case Nil
  then show ?case by (simp add: booked_def)
next
  case (snoc x xs)
  from snoc.prems have sx: "sorted (map sale_day_x xs)" and le: "\<forall>y\<in>set xs. sale_day_x y \<le> sale_day_x x"
    by (auto simp: sorted_append)
  note IH = snoc.IH[OF sx]
  show ?case
  proof (cases "xs = []")
    case True
    then show ?thesis
      by (simp add: booked_def update_history_def count_upto_def revenue_upto_def)
  next
    case False
    let ?h = "booked xs"
    from IH False have hne: "?h \<noteq> []"
      and lst: "last ?h = (sale_day_x (last xs), int (length xs), sum_list (map price xs))"
      by auto
    have I1: "map fst ?h = remdups_adj (map sale_day_x xs)" using IH by simp
    have I2: "\<forall>pt\<in>set ?h. pt = (fst pt, count_upto xs (fst pt), revenue_upto xs (fst pt))" using IH by simp
    have I4: "\<forall>pt\<in>set (butlast ?h). fst pt < sale_day_x (last xs)" using IH by simp
    have lle: "sale_day_x (last xs) \<le> sale_day_x x" using le False by simp
    have cx: "count_upto (xs @ [x]) (sale_day_x x) = int (length xs) + 1"
      using le by (simp add: count_upto_def)
    have rx: "revenue_upto (xs @ [x]) (sale_day_x x) = sum_list (map price xs) + price x"
      using le by (simp add: revenue_upto_def)
    have below: "count_upto (xs @ [x]) d = count_upto xs d \<and> revenue_upto (xs @ [x]) d = revenue_upto xs d"
      if "d < sale_day_x x" for d
      using that by (simp add: count_upto_def revenue_upto_def)
    have mapxs: "map sale_day_x xs = butlast (map sale_day_x xs) @ [sale_day_x (last xs)]"
      using False append_butlast_last_id[of "map sale_day_x xs"] by (simp add: last_map)
    have mapsnoc: "map sale_day_x (xs @ [x]) = butlast (map sale_day_x xs) @ [sale_day_x (last xs), sale_day_x x]"
      using mapxs by simp
    show ?thesis
    proof (cases "sale_day_x x = sale_day_x (last xs)")
      case True
      have h': "booked (xs @ [x]) = butlast ?h @ [(sale_day_x x, int (length xs) + 1, sum_list (map price xs) + price x)]"
        using hne lst True by (simp add: booked_snoc update_history_def)
      have "map fst (booked (xs @ [x])) = butlast (map fst ?h) @ [last (map fst ?h)]"
        using hne lst True by (simp add: h' map_butlast last_map)
      also have "\<dots> = map fst ?h" using hne by simp
      also have "\<dots> = remdups_adj (map sale_day_x (xs @ [x]))"
        unfolding I1 using True
        by (subst mapsnoc, subst remdups_adj_append_two, subst mapxs[symmetric]) simp
      finally have J1: "map fst (booked (xs @ [x])) = remdups_adj (map sale_day_x (xs @ [x]))" .
      have J2: "\<forall>pt\<in>set (booked (xs @ [x])). pt = (fst pt, count_upto (xs @ [x]) (fst pt), revenue_upto (xs @ [x]) (fst pt))"
      proof
        fix pt assume "pt \<in> set (booked (xs @ [x]))"
        then consider "pt \<in> set (butlast ?h)" | "pt = (sale_day_x x, int (length xs) + 1, sum_list (map price xs) + price x)"
          unfolding h' by auto
        then show "pt = (fst pt, count_upto (xs @ [x]) (fst pt), revenue_upto (xs @ [x]) (fst pt))"
        proof cases
          case 1
          then have "fst pt < sale_day_x x" using I4 True by simp
          moreover have "pt \<in> set ?h" using 1 by (rule in_set_butlastD)
          ultimately show ?thesis using I2 below by metis
        next
          case 2
          then show ?thesis using cx rx by simp
        qed
      qed
      have J4: "\<forall>pt\<in>set (butlast (booked (xs @ [x]))). fst pt < sale_day_x (last (xs @ [x]))"
        using I4 True by (simp add: h')
      show ?thesis using J1 J2 J4 by (simp add: h')
    next
      case ne: False
      then have lt: "sale_day_x (last xs) < sale_day_x x" using lle by simp
      have h': "booked (xs @ [x]) = ?h @ [(sale_day_x x, int (length xs) + 1, sum_list (map price xs) + price x)]"
        using hne lst ne by (simp add: booked_snoc update_history_def)
      have J1: "map fst (booked (xs @ [x])) = remdups_adj (map sale_day_x (xs @ [x]))"
        unfolding h' using I1 ne
        by (subst mapsnoc, subst remdups_adj_append_two, subst mapxs[symmetric]) simp
      have all_lt: "\<forall>pt\<in>set ?h. fst pt < sale_day_x x"
      proof
        fix pt assume "pt \<in> set ?h"
        then have "pt \<in> set (butlast ?h) \<or> pt = last ?h"
          using hne by (metis append_butlast_last_id in_set_butlast_appendI insert_iff list.set(2) set_append Un_iff empty_set empty_iff)
        then show "fst pt < sale_day_x x" using I4 lst lt by auto
      qed
      have J2: "\<forall>pt\<in>set (booked (xs @ [x])). pt = (fst pt, count_upto (xs @ [x]) (fst pt), revenue_upto (xs @ [x]) (fst pt))"
      proof
        fix pt assume "pt \<in> set (booked (xs @ [x]))"
        then consider "pt \<in> set ?h" | "pt = (sale_day_x x, int (length xs) + 1, sum_list (map price xs) + price x)"
          unfolding h' by auto
        then show "pt = (fst pt, count_upto (xs @ [x]) (fst pt), revenue_upto (xs @ [x]) (fst pt))"
        proof cases
          case 1
          then have "fst pt < sale_day_x x" using all_lt by simp
          then show ?thesis using I2 1 below by metis
        next
          case 2
          then show ?thesis using cx rx by simp
        qed
      qed
      have J4: "\<forall>pt\<in>set (butlast (booked (xs @ [x]))). fst pt < sale_day_x (last (xs @ [x]))"
        using all_lt by (simp add: h')
      show ?thesis using J1 J2 J4 by (simp add: h')
    qed
  qed
qed

lemma history_booked: "history od = booked (sort_key sale_day_x (passengers od))"
  by (simp add: history_def booked_def)

lemma distinct_remdups_adj_sorted: "sorted xs \<Longrightarrow> distinct (remdups_adj xs)"
  by (induction xs rule: remdups_adj.induct) auto

lemma history_days:
  "map fst (history od) = sorted_list_of_set (sale_day_x ` set (passengers od))"
proof -
  let ?xs = "sort_key sale_day_x (passengers od)"
  have s: "sorted (map sale_day_x ?xs)" by simp
  have "map fst (history od) = remdups_adj (map sale_day_x ?xs)"
    using booked_invariant[OF s] by (simp add: history_booked)
  moreover have "sorted (remdups_adj (map sale_day_x ?xs))" using s by simp
  moreover have "distinct (remdups_adj (map sale_day_x ?xs))"
    using s by (rule distinct_remdups_adj_sorted)
  moreover have "set (remdups_adj (map sale_day_x ?xs)) = sale_day_x ` set (passengers od)"
    by simp
  ultimately show ?thesis
    by (intro sorted_distinct_set_unique) simp_all
qed

lemma history_point:
  "pt \<in> set (history od) \<Longrightarrow>
   pt = (fst pt, count_upto (passengers od) (fst pt), revenue_upto (passengers od) (fst pt))"
  using booked_invariant[of "sort_key sale_day_x (passengers od)"]
  by (simp add: history_booked count_upto_sort revenue_upto_sort)

lemma history_map:
  "history od = map (\<lambda>d. (d, count_upto (passengers od) d, revenue_upto (passengers od) d))
                    (sorted_list_of_set (sale_day_x ` set (passengers od)))"
proof -
  have "map ((\<lambda>d. (d, count_upto (passengers od) d, revenue_upto (passengers od) d)) \<circ> fst) (history od)
        = history od"
    by (rule map_idI) (use history_point in auto)
  then show ?thesis by (simp add: history_days[symmetric])
qed

lemma count_upto_mono: "d \<le> d' \<Longrightarrow> count_upto ps d \<le> count_upto ps d'"
  unfolding count_upto_def by (induction ps) auto

lemma revenue_upto_mono:
  "\<forall>p\<in>set ps. 0 \<le> price p \<Longrightarrow> d \<le> d' \<Longrightarrow> revenue_upto ps d \<le> revenue_upto ps d'"
  unfolding revenue_upto_def by (induction ps) auto

text \<open>
  C8. \<^verbatim>\<open>OD.history()\<close> has exactly one point per distinct sale day of the bookings of the
  OD, in strictly ascending order of the day; the count and the revenue of a point are the
  number and the total price of the bookings sold on that day or before; the counts never
  decrease, nor do the revenues when no price is negative; and without bookings the history
  is empty.
\<close>

theorem history_points:
  "map fst (history od) = sorted_list_of_set (sale_day_x ` set (passengers od))
   \<and> sorted_wrt (<) (map fst (history od))
   \<and> (\<forall>pt\<in>set (history od).
         fst (snd pt) = count_upto (passengers od) (fst pt)
       \<and> snd (snd pt) = revenue_upto (passengers od) (fst pt))
   \<and> sorted (map (fst \<circ> snd) (history od))
   \<and> ((\<forall>p\<in>set (passengers od). 0 \<le> price p) \<longrightarrow> sorted (map (snd \<circ> snd) (history od)))
   \<and> (passengers od = [] \<longrightarrow> history od = [])"
proof (intro conjI impI)
  show "map fst (history od) = sorted_list_of_set (sale_day_x ` set (passengers od))"
    by (rule history_days)
  show "sorted_wrt (<) (map fst (history od))"
    by (simp add: history_days)
  show "\<forall>pt\<in>set (history od).
         fst (snd pt) = count_upto (passengers od) (fst pt)
       \<and> snd (snd pt) = revenue_upto (passengers od) (fst pt)"
    using history_point by (metis fst_conv snd_conv)
  have srt: "sorted (sorted_list_of_set (sale_day_x ` set (passengers od)))" by simp
  show "sorted (map (fst \<circ> snd) (history od))"
    by (subst history_map) (auto simp: sorted_map o_def intro: sorted_wrt_mono_rel[OF _ srt] count_upto_mono)
  show "sorted (map (snd \<circ> snd) (history od))" if "\<forall>p\<in>set (passengers od). 0 \<le> price p"
    by (subst history_map) (auto simp: sorted_map o_def intro: sorted_wrt_mono_rel[OF _ srt] revenue_upto_mono[OF that])
  show "history od = []" if "passengers od = []"
    using that by (simp add: history_def)
qed

theorem history_points_witness:
  "map fst (history od_ply_lpd) = [- 30, - 25, - 20]
   \<and> sorted_wrt (<) (map fst (history od_ply_lpd))
   \<and> sorted (map (fst \<circ> snd) (history od_ply_lpd))
   \<and> sorted (map (snd \<circ> snd) (history od_ply_lpd))
   \<and> passengers (OD ply lpd) = [] \<and> history (OD ply lpd) = []"
proof -
  have p: "\<forall>p\<in>set (passengers od_ply_lpd). 0 \<le> price p"
    by (simp add: od_ply_lpd_eq Passenger_def)
  have d: "sorted_list_of_set (sale_day_x ` set (passengers od_ply_lpd)) = [- 30, - 25, - 20]"
    by (simp add: od_ply_lpd_eq Passenger_def)
  have e: "passengers (OD ply lpd) = []" by (simp add: OD_def)
  show ?thesis
    using history_points [of od_ply_lpd] history_points [of "OD ply lpd"] p d e by simp
qed

subsection \<open>Errors of the forecast\<close>

lemma sort_eq_Nil [simp]: "(sort xs = []) = (xs = [])"
  by (metis length_sort length_0_conv)

lemma hd_sort_Min: "xs \<noteq> [] \<Longrightarrow> hd (sort xs) = Min (set xs)"
proof -
  assume ne: "xs \<noteq> []"
  then obtain y ys where s: "sort xs = y # ys" by (cases "sort xs") auto
  have "sorted (sort xs)" by simp
  then have "\<forall>z\<in>set (y # ys). y \<le> z" unfolding s by auto
  moreover have "set (y # ys) = set xs" using s by (metis set_sort)
  ultimately have "Min (set xs) = y"
    by (intro Min_eqI) auto
  then show ?thesis using s by simp
qed

lemma cascade_error: "cascade day p ups dm = (Some e, dm') \<Longrightarrow> e = KeyError"
  by (induction ups arbitrary: dm)
     (auto simp: get_demand_def split: if_splits sum.splits option.splits)

lemma sell_while_error:
  "sell_while prices day p nf pr dm = (Some e, st) \<Longrightarrow> e = KeyError"
proof (induction prices day p nf pr dm rule: sell_while.induct)
  case (1 prices day p nf pr dm)
  show ?case
  proof (cases "get_demand dm day p")
    case (Inl a)
    then show ?thesis using "1.prems"
      by (subst (asm) sell_while.simps) (auto simp: get_demand_def split: option.splits)
  next
    case (Inr d)
    show ?thesis
    proof (cases "d > 0")
      case False
      then show ?thesis using "1.prems" Inr by (subst (asm) sell_while.simps) auto
    next
      case dpos: True
      show ?thesis
      proof (cases "map_of pr p")
        case None
        then show ?thesis using "1.prems" Inr dpos by (subst (asm) sell_while.simps) auto
      next
        case (Some s)
        show ?thesis
        proof (cases "s > 0")
          case False
          then show ?thesis
            using "1.prems" Inr dpos Some by (subst (asm) sell_while.simps) auto
        next
          case spos: True
          obtain r dm' where c: "cascade day p prices dm = (r, dm')"
            by (cases "cascade day p prices dm")
          show ?thesis
          proof (cases r)
            case None
            have "sell_while prices day p (day, fst (snd nf) + 1, snd (snd nf) + p)
                    (AList.update p (s - 1) pr) dm' = (Some e, st)"
              using "1.prems" Inr dpos Some spos c None
              by (subst (asm) sell_while.simps) (simp add: Let_def)
            then show ?thesis
              using "1.IH"[OF Inr dpos Some spos refl refl _ None, of dm'] c None by simp
          next
            case (Some e')
            then show ?thesis
              using "1.prems" Inr dpos \<open>map_of pr p = Some s\<close> spos c
                cascade_error[of day p prices dm e' dm']
              by (subst (asm) sell_while.simps) (auto simp add: Let_def)
          qed
        qed
      qed
    qed
  qed
qed

lemma sell_prices_error:
  "sell_prices prices day ps nf pr dm = (Some e, st) \<Longrightarrow> e = KeyError"
  by (induction ps arbitrary: nf pr dm)
     (auto split: prod.splits option.splits dest: sell_while_error)

lemma forecast_days_error:
  "forecast_days prices ds fc pr dm = (Some e, st) \<Longrightarrow> e = KeyError"
  by (induction ds arbitrary: fc pr dm)
     (auto simp: Let_def split: prod.splits option.splits dest: sell_prices_error)

lemma forecast_days_not_stale:
  "fst (case forecast_days prices ds fc pr dm of
          (Some e, fc', pr', dm') \<Rightarrow> (Inl e, pr', dm')
        | (None, fc', pr', dm') \<Rightarrow> (Inr (tl fc'), pr', dm')) \<noteq> Inl StaleDemandData"
  by (auto split: prod.splits option.splits dest: forecast_days_error)

text \<open>
  C3. \<^verbatim>\<open>OD.forecast\<close> reports the out-of-date demand matrix exactly when the history of the
  OD is not empty, the demand matrix has a day, and its earliest day is strictly before the
  day of the last history point; and when it does, it leaves \<^verbatim>\<open>pricing\<close> and
  \<^verbatim>\<open>demand_matrix\<close> as they were.
\<close>

theorem forecast_stale_iff:
  "(fst (forecast od pr dm) = Inl StaleDemandData) =
     (history od \<noteq> [] \<and> dm \<noteq> [] \<and> Min (fst ` set dm) < fst (last (history od)))
   \<and> (fst (forecast od pr dm) = Inl StaleDemandData \<longrightarrow> snd (forecast od pr dm) = (pr, dm))"
proof (cases "dm = []")
  case True
  then show ?thesis by (simp add: forecast_def forecast_from_def)
next
  case False
  then have m: "hd (sort (map fst dm)) = Min (fst ` set dm)"
    using hd_sort_Min[of "map fst dm"] by simp
  show ?thesis
  proof (cases "history od = []")
    case True
    then show ?thesis
      using False m forecast_days_not_stale
      by (simp add: forecast_def forecast_from_def Let_def)
  next
    case hne: False
    show ?thesis
    proof (cases "Min (fst ` set dm) < fst (last (history od))")
      case True
      then show ?thesis using False m hne
        by (simp add: forecast_def forecast_from_def Let_def)
    next
      case nlt: False
      then show ?thesis using False m hne forecast_days_not_stale
        by (simp add: forecast_def forecast_from_def Let_def)
    qed
  qed
qed

theorem forecast_stale_iff_witness:
  "fst (forecast od_ply_lpd pricing_data [(- 25, [(10, 1)])]) = Inl StaleDemandData
   \<and> snd (forecast od_ply_lpd pricing_data [(- 25, [(10, 1)])])
       = (pricing_data, [(- 25, [(10, 1)])])
   \<and> fst (forecast od_ply_lpd pricing_data [(- 20, [(10, 1)])]) \<noteq> Inl StaleDemandData"
  using forecast_stale_iff [of od_ply_lpd pricing_data "[(- 25, [(10, 1)])]"]
        forecast_stale_iff [of od_ply_lpd pricing_data "[(- 20, [(10, 1)])]"]
  by (simp add: history_od_ply_lpd)

subsection \<open>The scenario of the repository\<close>

lemma forecast_from_data:
  "fst (forecast_from [(- 30, 1, 20), (- 25, 2, 50), (- 20, 4, 130)]
          pricing_data demand_matrix_data) =
     Inr [(- 7, 5, 150), (- 6, 6, 170), (- 5, 9, 260), (- 4, 12, 360),
          (- 3, 15, 480), (- 2, 18, 620), (- 1, 21, 770), (0, 21, 770)]"
  by code_simp

text \<open>
  C2. For an OD whose history is \<^verbatim>\<open>[[-30,1,20],[-25,2,50],[-20,4,130]]\<close>, the forecast with
  the pricing and the demand matrix of the repository returns the eight points below: the
  first is \<^verbatim>\<open>[-7, 5, 150]\<close> and the last \<^verbatim>\<open>[0, 21, 770]\<close>.
\<close>

theorem forecast_scenario:
  "history od = [(- 30, 1, 20), (- 25, 2, 50), (- 20, 4, 130)] \<Longrightarrow>
   fst (forecast od pricing_data demand_matrix_data) =
     Inr [(- 7, 5, 150), (- 6, 6, 170), (- 5, 9, 260), (- 4, 12, 360),
          (- 3, 15, 480), (- 2, 18, 620), (- 1, 21, 770), (0, 21, 770)]"
  by (simp only: forecast_def forecast_from_data)

theorem forecast_scenario_witness:
  "history od_ply_lpd = [(- 30, 1, 20), (- 25, 2, 50), (- 20, 4, 130)]
   \<and> fst (forecast od_ply_lpd pricing_data demand_matrix_data) =
     Inr [(- 7, 5, 150), (- 6, 6, 170), (- 5, 9, 260), (- 4, 12, 360),
          (- 3, 15, 480), (- 2, 18, 620), (- 1, 21, 770), (0, 21, 770)]"
  using forecast_scenario [OF history_od_ply_lpd] history_od_ply_lpd by simp

subsection \<open>Invariants of the forecast loops\<close>





lemma sell_while_invariant:
  assumes "I pr dm"
    and "\<And>pr dm s r dm'. I pr dm \<Longrightarrow> map_of pr p = Some s \<Longrightarrow> 0 < s \<Longrightarrow>
                 cascade day p prices dm = (r, dm') \<Longrightarrow> I (AList.update p (s - 1) pr) dm'"
  shows "I (fst (snd (snd (sell_while prices day p nf pr dm))))
           (snd (snd (snd (sell_while prices day p nf pr dm))))"
  using assms
proof (induction prices day p nf pr dm rule: sell_while.induct)
  case (1 prices day p nf pr dm)
  note inv = "1.prems"(1) and step = "1.prems"(2)
  show ?case
  proof (cases "get_demand dm day p")
    case (Inl a)
    then show ?thesis using inv by (subst (1 2) sell_while.simps) simp
  next
    case (Inr d)
    show ?thesis
    proof (cases "d > 0")
      case False
      then show ?thesis using inv Inr by (subst (1 2) sell_while.simps) simp
    next
      case dpos: True
      show ?thesis
      proof (cases "map_of pr p")
        case None
        then show ?thesis using inv Inr dpos by (subst (1 2) sell_while.simps) simp
      next
        case (Some s)
        show ?thesis
        proof (cases "s > 0")
          case False
          then show ?thesis
            using inv Inr dpos Some by (subst (1 2) sell_while.simps) simp
        next
          case spos: True
          obtain r dm' where c: "cascade day p prices dm = (r, dm')"
            by (cases "cascade day p prices dm")
          have I': "I (AList.update p (s - 1) pr) dm'"
            using step[OF inv Some spos c] .
          show ?thesis
          proof (cases r)
            case None
            have "I (fst (snd (snd (sell_while prices day p (day, fst (snd nf) + 1, snd (snd nf) + p)
                      (AList.update p (s - 1) pr) dm'))))
                    (snd (snd (snd (sell_while prices day p (day, fst (snd nf) + 1, snd (snd nf) + p)
                      (AList.update p (s - 1) pr) dm'))))"
              by (rule "1.IH"[OF Inr dpos Some spos refl refl c[symmetric] None I' step])
            then show ?thesis
              using c None Inr dpos Some spos
              by (subst (1 2) sell_while.simps) (simp add: Let_def)
          next
            case (Some e')
            then show ?thesis
              using Inr dpos \<open>map_of pr p = Some s\<close> spos c I'
              by (subst (1 2) sell_while.simps) (simp add: Let_def)
          qed
        qed
      qed
    qed
  qed
qed

lemma sell_prices_invariant:
  assumes "I pr dm"
    and "\<And>p pr dm s r dm'. I pr dm \<Longrightarrow> map_of pr p = Some s \<Longrightarrow> 0 < s \<Longrightarrow>
                 cascade day p prices dm = (r, dm') \<Longrightarrow> I (AList.update p (s - 1) pr) dm'"
  shows "I (fst (snd (snd (sell_prices prices day ps nf pr dm))))
           (snd (snd (snd (sell_prices prices day ps nf pr dm))))"
  using assms(1)
proof (induction ps arbitrary: nf pr dm)
  case Nil
  then show ?case by simp
next
  case (Cons p ps)
  obtain e nf' pr' dm' where w: "sell_while prices day p nf pr dm = (e, nf', pr', dm')"
    by (cases "sell_while prices day p nf pr dm") auto
  have "I pr' dm'"
    using sell_while_invariant[of I pr dm p day prices nf, OF Cons.prems assms(2)] w by simp
  then show ?case using w Cons.IH[of pr' dm' nf'] by (cases e) simp_all
qed

lemma forecast_days_invariant:
  assumes "I pr dm"
    and "\<And>day p pr dm s r dm'. I pr dm \<Longrightarrow> map_of pr p = Some s \<Longrightarrow> 0 < s \<Longrightarrow>
                 cascade day p prices dm = (r, dm') \<Longrightarrow> I (AList.update p (s - 1) pr) dm'"
  shows "I (fst (snd (snd (forecast_days prices ds fc pr dm))))
           (snd (snd (snd (forecast_days prices ds fc pr dm))))"
  using assms(1)
proof (induction ds arbitrary: fc pr dm)
  case Nil
  then show ?case by simp
next
  case (Cons day ds)
  let ?nf = "(day, fst (snd (last fc)), snd (snd (last fc)))"
  obtain e nf' pr' dm' where w: "sell_prices prices day prices ?nf pr dm = (e, nf', pr', dm')"
    by (cases "sell_prices prices day prices ?nf pr dm") auto
  have "I pr' dm'"
    using sell_prices_invariant[of I pr dm day prices prices ?nf, OF Cons.prems assms(2)] w by simp
  then show ?case using w Cons.IH[of pr' dm' "fc @ [nf']"] by (cases e) (simp_all add: Let_def)
qed

lemma forecast_from_invariant:
  assumes "I pr dm"
    and "\<And>day p pr dm s r dm'. I pr dm \<Longrightarrow> map_of pr p = Some s \<Longrightarrow> 0 < s \<Longrightarrow>
                 cascade day p (sort (map fst pr0)) dm = (r, dm') \<Longrightarrow> I (AList.update p (s - 1) pr) dm'"
    and "pr0 = pr"
  shows "I (fst (snd (forecast_from hist pr dm))) (snd (snd (forecast_from hist pr dm)))"
proof -
  let ?r = "forecast_days (sort (map fst pr)) (sort (map fst dm))
              [if length hist = 0 then (hd (sort (map fst dm)) - 1, 0, 0) else last hist] pr dm"
  have "I (fst (snd (snd ?r))) (snd (snd (snd ?r)))"
    using forecast_days_invariant[of I pr dm "sort (map fst pr)", OF assms(1)] assms(2,3) by blast
  then show ?thesis
    using assms(1) by (auto simp: forecast_from_def Let_def split: prod.splits option.splits)
qed



subsection \<open>The forecast follows the specification\<close>

lemma get_set_demand:
  "get_demand dm day q = Inr d0 \<Longrightarrow>
   get_demand (set_demand dm day q v) day' q' =
     (if day' = day \<and> q' = q then Inr v else get_demand dm day' q')"
  by (auto simp: get_demand_def set_demand_def update_conv' split: option.splits)

lemma cascade_get_demand:
  assumes "distinct ups" "\<forall>u\<in>set ups. p \<le> u \<longrightarrow> (\<exists>d. get_demand dm day u = Inr d)"
  shows "fst (cascade day p ups dm) = None \<and>
         (\<forall>day' q. get_demand (snd (cascade day p ups dm)) day' q =
            (if day' = day \<and> q \<in> set ups \<and> p \<le> q
             then map_sum id (\<lambda>d. if 0 < d then d - 1 else d) (get_demand dm day q)
             else get_demand dm day' q))"
  using assms
proof (induction ups arbitrary: dm)
  case Nil
  then show ?case by simp
next
  case (Cons u ups)
  have du: "u \<notin> set ups" and dups: "distinct ups" using Cons.prems(1) by auto
  show ?case
  proof (cases "p \<le> u")
    case False
    have "\<forall>u\<in>set ups. p \<le> u \<longrightarrow> (\<exists>d. get_demand dm day u = Inr d)" using Cons.prems(2) by simp
    from Cons.IH[OF dups this] False show ?thesis by auto
  next
    case True
    then obtain d where d: "get_demand dm day u = Inr d" using Cons.prems(2) by auto
    show ?thesis
    proof (cases "0 < d")
      case False
      have "\<forall>u\<in>set ups. p \<le> u \<longrightarrow> (\<exists>d. get_demand dm day u = Inr d)" using Cons.prems(2) by simp
      from Cons.IH[OF dups this] True d False show ?thesis by auto
    next
      case pos: True
      let ?dm1 = "set_demand dm day u (d - 1)"
      have g1: "get_demand ?dm1 day' q' = (if day' = day \<and> q' = u then Inr (d - 1) else get_demand dm day' q')" for day' q'
        using get_set_demand[OF d] by simp
      have "\<forall>u\<in>set ups. p \<le> u \<longrightarrow> (\<exists>d. get_demand ?dm1 day u = Inr d)"
        using Cons.prems(2) g1 by simp
      from Cons.IH[OF dups this] True d pos du show ?thesis
        by (auto simp: g1)
    qed
  qed
qed

lemma cascade_demand_of:
  assumes "distinct ups" "\<forall>u\<in>set ups. p \<le> u \<longrightarrow> (\<exists>d. get_demand dm day u = Inr d)"
  shows "demand_of (snd (cascade day p ups dm)) =
           (demand_of dm)(day := (\<lambda>q. if q \<in> set ups \<and> p \<le> q \<and> 0 < demand_of dm day q
                                       then demand_of dm day q - 1 else demand_of dm day q))"
proof (intro ext)
  fix day' q
  show "demand_of (snd (cascade day p ups dm)) day' q =
           ((demand_of dm)(day := (\<lambda>q. if q \<in> set ups \<and> p \<le> q \<and> 0 < demand_of dm day q
                                       then demand_of dm day q - 1 else demand_of dm day q))) day' q"
    using cascade_get_demand[OF assms] assms(2)
    by (auto simp: demand_of_def split: sum.splits)
qed

lemma cascade_covers:
  assumes "distinct ups" "\<forall>u\<in>set ups. p \<le> u \<longrightarrow> (\<exists>d. get_demand dm day u = Inr d)" "covers ds tiers dm"
  shows "covers ds tiers (snd (cascade day p ups dm))"
  unfolding covers_def
proof (intro ballI)
  fix day' q assume "day' \<in> ds" "q \<in> tiers"
  then obtain d where "get_demand dm day' q = Inr d" using assms(3) by (auto simp: covers_def)
  then show "\<exists>d. get_demand (snd (cascade day p ups dm)) day' q = Inr d"
    using cascade_get_demand[OF assms(1,2)] assms(2) by auto
qed

lemma seats_of_update: "seats_of (AList.update p v pr) = (seats_of pr)(p := v)"
  by (auto simp: seats_of_def update_conv')

lemma priced_update: "priced tiers pr \<Longrightarrow> priced tiers (AList.update p v pr)"
  by (auto simp: priced_def update_conv')

lemma sell_while_spec:
  assumes "covers ds tiers dm" "priced tiers pr" "set prices = tiers" "distinct prices"
    "day \<in> ds" "p \<in> tiers" "fst nf = day"
  shows "\<exists>nf' pr' dm'. sell_while prices day p nf pr dm = (None, nf', pr', dm')
           \<and> fst nf' = day \<and> covers ds tiers dm' \<and> priced tiers pr'
           \<and> abs_sim nf' pr' dm' = spec_tier tiers day p (abs_sim nf pr dm)"
  using assms
proof (induction prices day p nf pr dm rule: sell_while.induct)
  case (1 prices day p nf pr dm)
  note cov = "1.prems"(1) and prc = "1.prems"(2) and pt = "1.prems"(3) and dist = "1.prems"(4)
    and dd = "1.prems"(5) and pp = "1.prems"(6) and fnf = "1.prems"(7)
  obtain d where d: "get_demand dm day p = Inr d" using cov dd pp by (auto simp: covers_def)
  obtain s where s: "map_of pr p = Some s" using prc pp by (auto simp: priced_def)
  have dof: "demand_of dm day p = d" using d by (simp add: demand_of_def)
  have sof: "seats_of pr p = s" using s by (simp add: seats_of_def)
  show ?case
  proof (cases "0 < d \<and> 0 < s")
    case False
    have "sell_while prices day p nf pr dm = (None, nf, pr, dm)"
      using False d s by (subst sell_while.simps) auto
    moreover have "spec_tier tiers day p (abs_sim nf pr dm) = abs_sim nf pr dm"
      using False dof sof by (subst spec_tier.simps) (auto simp: abs_sim_def)
    ultimately show ?thesis using cov prc fnf by simp
  next
    case True
    then have dpos: "0 < d" and spos: "0 < s" by auto
    let ?nf = "(day, fst (snd nf) + 1, snd (snd nf) + p)"
    let ?pr = "AList.update p (s - 1) pr"
    have ups: "\<forall>u\<in>set prices. p \<le> u \<longrightarrow> (\<exists>d. get_demand dm day u = Inr d)"
      using cov dd pt by (auto simp: covers_def)
    obtain r dm' where c: "cascade day p prices dm = (r, dm')"
      by (cases "cascade day p prices dm")
    have r: "r = None" using cascade_get_demand[OF dist ups] c by simp
    have cov': "covers ds tiers dm'" using cascade_covers[OF dist ups cov] c by simp
    have dem': "demand_of dm' =
           (demand_of dm)(day := (\<lambda>q. if q \<in> tiers \<and> p \<le> q \<and> 0 < demand_of dm day q
                                       then demand_of dm day q - 1 else demand_of dm day q))"
      using cascade_demand_of[OF dist ups] c pt by simp
    have step: "abs_sim ?nf ?pr dm' = spec_sell tiers day p (abs_sim nf pr dm)"
      by (simp add: abs_sim_def spec_sell_def seats_of_update sof dem' cong: if_cong)
    have unfold: "sell_while prices day p nf pr dm = sell_while prices day p ?nf ?pr dm'"
      using d s dpos spos c r by (subst sell_while.simps) (simp add: Let_def)
    have spec: "spec_tier tiers day p (abs_sim nf pr dm)
                  = spec_tier tiers day p (spec_sell tiers day p (abs_sim nf pr dm))"
      using dpos spos dof sof by (subst spec_tier.simps) (simp add: abs_sim_def)
    have "\<exists>nf' pr' dm''. sell_while prices day p ?nf ?pr dm' = (None, nf', pr', dm'')
           \<and> fst nf' = day \<and> covers ds tiers dm'' \<and> priced tiers pr'
           \<and> abs_sim nf' pr' dm'' = spec_tier tiers day p (abs_sim ?nf ?pr dm')"
      by (rule "1.IH"[OF d dpos s spos refl refl c[symmetric] r cov' priced_update[OF prc] pt dist dd pp])
         simp
    then show ?thesis unfolding unfold spec step by simp
  qed
qed

lemma sell_prices_spec:
  assumes "covers ds tiers dm" "priced tiers pr" "set prices = tiers" "distinct prices"
    "day \<in> ds" "set ps \<subseteq> tiers" "fst nf = day"
  shows "\<exists>nf' pr' dm'. sell_prices prices day ps nf pr dm = (None, nf', pr', dm')
           \<and> fst nf' = day \<and> covers ds tiers dm' \<and> priced tiers pr'
           \<and> abs_sim nf' pr' dm' = fold (spec_tier tiers day) ps (abs_sim nf pr dm)"
  using assms(1,2,6,7)
proof (induction ps arbitrary: nf pr dm)
  case Nil
  then show ?case by simp
next
  case (Cons p ps)
  have pp: "p \<in> tiers" and sub: "set ps \<subseteq> tiers" using Cons.prems(3) by auto
  obtain nf1 pr1 dm1 where w: "sell_while prices day p nf pr dm = (None, nf1, pr1, dm1)"
    and f1: "fst nf1 = day" and c1: "covers ds tiers dm1" and p1: "priced tiers pr1"
    and a1: "abs_sim nf1 pr1 dm1 = spec_tier tiers day p (abs_sim nf pr dm)"
    using sell_while_spec[OF Cons.prems(1,2) assms(3,4,5) pp Cons.prems(4)] by blast
  from Cons.IH[OF c1 p1 sub f1] w a1 show ?case by simp
qed

lemma spec_days_days: "map fst (fst (spec_days tiers ds \<sigma>)) = ds"
  by (induction ds arbitrary: \<sigma>) (simp_all add: Let_def split_beta)

lemma forecast_days_spec:
  assumes "covers dset tiers dm" "priced tiers pr" "set prices = tiers" "distinct prices"
    "set ds \<subseteq> dset"
  shows "\<exists>pr' dm'. forecast_days prices ds fc pr dm =
             (None, fc @ fst (spec_days prices ds (abs_sim (last fc) pr dm)), pr', dm')
           \<and> seats_of pr' = seats (snd (spec_days prices ds (abs_sim (last fc) pr dm)))
           \<and> demand_of dm' = demand (snd (spec_days prices ds (abs_sim (last fc) pr dm)))"
  using assms(1,2,5)
proof (induction ds arbitrary: fc pr dm)
  case Nil
  then show ?case by (simp add: abs_sim_def)
next
  case (Cons day ds)
  have dd: "day \<in> dset" and sub: "set ds \<subseteq> dset" using Cons.prems(3) by auto
  let ?nf = "(day, fst (snd (last fc)), snd (snd (last fc)))"
  have same: "abs_sim ?nf pr dm = abs_sim (last fc) pr dm" by (simp add: abs_sim_def)
  obtain nf1 pr1 dm1 where w: "sell_prices prices day prices ?nf pr dm = (None, nf1, pr1, dm1)"
    and f1: "fst nf1 = day" and c1: "covers dset tiers dm1" and p1: "priced tiers pr1"
    and a1: "abs_sim nf1 pr1 dm1 = fold (spec_tier tiers day) prices (abs_sim ?nf pr dm)"
    using sell_prices_spec[OF Cons.prems(1,2) assms(3,4) dd, of prices ?nf] assms(3) by auto
  let ?\<sigma>1 = "fold (spec_tier (set prices) day) prices (abs_sim (last fc) pr dm)"
  have a1': "abs_sim nf1 pr1 dm1 = ?\<sigma>1" using a1 same assms(3) by simp
  then have nf1: "nf1 = (day, sold ?\<sigma>1, revenue ?\<sigma>1)"
    using f1 by (cases nf1) (auto simp: abs_sim_def dest: arg_cong[where f = sold] arg_cong[where f = revenue])
  from Cons.IH[OF c1 p1 sub, of "fc @ [nf1]"] obtain pr' dm' where
    r: "forecast_days prices ds (fc @ [nf1]) pr1 dm1 =
          (None, (fc @ [nf1]) @ fst (spec_days prices ds (abs_sim nf1 pr1 dm1)), pr', dm')"
    and s': "seats_of pr' = seats (snd (spec_days prices ds (abs_sim nf1 pr1 dm1)))"
    and d': "demand_of dm' = demand (snd (spec_days prices ds (abs_sim nf1 pr1 dm1)))"
    by auto
  show ?case
    using w r s' d' nf1 unfolding a1'
    by (auto simp: Let_def split: prod.splits)
qed

lemma update_keys_same: "map_of al k = Some v \<Longrightarrow> map fst (AList.update k w al) = map fst al"
  by (auto simp: update_keys dest: map_of_SomeD intro: rev_image_eqI)

lemma set_demand_keys: "map fst (set_demand dm day q v) = map fst dm"
  by (auto simp: set_demand_def update_keys_same split: option.splits)

lemma cascade_keys: "map fst (snd (cascade day p ups dm)) = map fst dm"
  by (induction ups arbitrary: dm) (auto simp: set_demand_keys split: sum.splits)

lemma sort_distinct_keys:
  "distinct xs \<Longrightarrow> sort xs = sorted_list_of_set (set xs)"
  by (simp add: sorted_list_of_set_sort_remdups distinct_remdups_id)

lemma complete_rows_covers:
  assumes "complete_rows pr dm"
  shows "covers (fst ` set dm) (fst ` set pr) dm"
  unfolding covers_def
proof (intro ballI)
  fix day q assume day: "day \<in> fst ` set dm" and q: "q \<in> fst ` set pr"
  then obtain row where row: "map_of dm day = Some row"
    by (metis map_of_eq_None_iff not_Some_eq)
  then have "(day, row) \<in> set dm" by (rule map_of_SomeD)
  from bspec[OF assms[unfolded complete_rows_def] this]
  have "fst ` set pr \<subseteq> fst ` set row" by simp
  then have "q \<in> fst ` set row" using q by blast
  then obtain d where "map_of row q = Some d"
    by (metis map_of_eq_None_iff not_Some_eq)
  then show "\<exists>d. get_demand dm day q = Inr d" using row by (simp add: get_demand_def)
qed

lemma priced_keys: "priced (fst ` set pr) pr"
  unfolding priced_def by (metis map_of_eq_None_iff not_Some_eq)

lemma forecast_from_spec:
  assumes "distinct (map fst pr)" "distinct (map fst dm)" "dm \<noteq> []" "complete_rows pr dm"
    "hist = [] \<or> fst (last hist) \<le> Min (fst ` set dm)"
  shows "fst (forecast_from hist pr dm) = Inr (fst (spec_forecast hist pr dm))
       \<and> seats_of (fst (snd (forecast_from hist pr dm))) = seats (snd (spec_forecast hist pr dm))
       \<and> demand_of (snd (snd (forecast_from hist pr dm))) = demand (snd (spec_forecast hist pr dm))"
proof -
  let ?prices = "sort (map fst pr)" and ?ds = "sort (map fst dm)"
  let ?last = "if length hist = 0 then (hd ?ds - 1, 0, 0) else last hist"
  have prices: "?prices = sorted_list_of_set (fst ` set pr)"
    using sort_distinct_keys[OF assms(1)] by simp
  have ds: "?ds = sorted_list_of_set (fst ` set dm)"
    using sort_distinct_keys[OF assms(2)] by simp
  have m: "hd ?ds = Min (fst ` set dm)"
    using hd_sort_Min[of "map fst dm"] assms(3) by simp
  have fresh: "\<not> fst ?last > hd ?ds" using assms(5) m by auto
  have init: "abs_sim (last [?last]) pr dm =
      \<lparr>sold = (if hist = [] then 0 else fst (snd (last hist))),
       revenue = (if hist = [] then 0 else snd (snd (last hist))),
       seats = seats_of pr, demand = demand_of dm\<rparr>"
    by (simp add: abs_sim_def)
  obtain pr' dm' where
    r: "forecast_days ?prices ?ds [?last] pr dm =
          (None, [?last] @ fst (spec_days ?prices ?ds (abs_sim (last [?last]) pr dm)), pr', dm')"
    and s': "seats_of pr' = seats (snd (spec_days ?prices ?ds (abs_sim (last [?last]) pr dm)))"
    and d': "demand_of dm' = demand (snd (spec_days ?prices ?ds (abs_sim (last [?last]) pr dm)))"
    using forecast_days_spec[OF complete_rows_covers[OF assms(4)] priced_keys, of ?prices ?ds "[?last]"]
      assms(1)
    by auto
  have sf: "spec_forecast hist pr dm = spec_days ?prices ?ds (abs_sim (last [?last]) pr dm)"
    unfolding prices ds spec_forecast_def by (simp add: abs_sim_def)
  show ?thesis
    using r s' d' fresh assms(3) unfolding sf
    by (simp add: forecast_from_def Let_def)
qed

lemma forecast_empty_demand: "fst (forecast od pr []) = Inl IndexError"
  by (simp add: forecast_def forecast_from_def)

text \<open>The forecast on dictionaries that are objects of their own returns what
  \<open>spec_forecast\<close> describes.\<close>

lemma forecast_value_follows_spec:
  assumes "distinct (map fst pr)" "distinct (map fst dm)" "dm \<noteq> []" "complete_rows pr dm"
    "history od = [] \<or> fst (last (history od)) \<le> Min (fst ` set dm)"
  shows "fst (forecast od pr dm) = Inr (fst (spec_forecast (history od) pr dm))
       \<and> map fst (fst (spec_forecast (history od) pr dm)) = sorted_list_of_set (fst ` set dm)
       \<and> seats_of (fst (snd (forecast od pr dm))) = seats (snd (spec_forecast (history od) pr dm))
       \<and> demand_of (snd (snd (forecast od pr dm)))
           = demand (snd (spec_forecast (history od) pr dm))
       \<and> map fst (fst (snd (forecast od pr dm))) = map fst pr
       \<and> map fst (snd (snd (forecast od pr dm))) = map fst dm"
proof -
  have keys: "(\<lambda>pr' dm'. map fst pr' = map fst pr \<and> map fst dm' = map fst dm)
          (fst (snd (forecast_from (history od) pr dm)))
          (snd (snd (forecast_from (history od) pr dm)))"
  proof (rule forecast_from_invariant[where pr0 = pr])
    show "map fst pr = map fst pr \<and> map fst dm = map fst dm" by simp
    show "map fst (AList.update p (s - 1) pr') = map fst pr \<and> map fst dm'' = map fst dm"
      if "map fst pr' = map fst pr \<and> map fst dm' = map fst dm" "map_of pr' p = Some s" "0 < s"
         "cascade day p (sort (map fst pr)) dm' = (r, dm'')" for day p pr' dm' s r dm''
      using that update_keys_same[of pr' p s "s - 1"] cascade_keys[of day p "sort (map fst pr)" dm']
      by simp
  qed simp
  show ?thesis
    using forecast_from_spec[OF assms] keys
    by (simp add: forecast_def spec_forecast_def spec_days_days)
qed

subsection \<open>The forecast on a store\<close>

lemma map_of_dm_of: "map_of (dm_of h dmr) day = map_option h (map_of dmr day)"
  by (induction dmr) (auto simp: dm_of_def)

lemma get_demand_refs_sim: "get_demand_refs h dmr day p = get_demand (dm_of h dmr) day p"
  by (auto simp: get_demand_refs_def get_demand_def get_item_def map_of_dm_of split: option.splits)

lemma dm_of_upd_row:
  "distinct (map snd dmr) \<Longrightarrow> map_of dmr day = Some r \<Longrightarrow>
   dm_of (h(r := X)) dmr = AList.update day X (dm_of h dmr)"
proof (induction dmr)
  case Nil
  then show ?case by simp
next
  case (Cons a dmr)
  obtain d0 r0 where a: "a = (d0, r0)" by (cases a)
  show ?case
  proof (cases "d0 = day")
    case True
    then have r0: "r0 = r" using Cons.prems(2) a by simp
    have "r \<notin> snd ` set dmr" using Cons.prems(1) a r0 by auto
    then have "map (\<lambda>(day, r'). (day, (h(r := X)) r')) dmr = map (\<lambda>(day, r'). (day, h r')) dmr"
      by (intro map_cong) (auto simp: rev_image_eqI)
    then show ?thesis using True a r0 by (simp add: dm_of_def)
  next
    case False
    then have m: "map_of dmr day = Some r" using Cons.prems(2) a by simp
    then have "r \<in> snd ` set dmr" by (metis map_of_SomeD snd_conv image_eqI)
    then have "r0 \<noteq> r" using Cons.prems(1) a by auto
    then show ?thesis
      using Cons.IH[OF _ m] Cons.prems(1) False a by (simp add: dm_of_def)
  qed
qed

lemma dm_of_upd_other: "r \<notin> set (map snd dmr) \<Longrightarrow> dm_of (h(r := X)) dmr = dm_of h dmr"
  unfolding dm_of_def by (intro map_cong) (auto simp: rev_image_eqI)

lemma set_demand_refs_sim:
  assumes "distinct (pricing # map snd dmr)" "get_demand_refs h dmr day p = Inr d"
  shows "dm_of (set_demand_refs h dmr day p v) dmr = set_demand (dm_of h dmr) day p v"
    and "set_demand_refs h dmr day p v pricing = h pricing"
proof -
  obtain r where r: "map_of dmr day = Some r"
    using assms(2) by (auto simp: get_demand_refs_def split: option.splits)
  then have "r \<in> snd ` set dmr" by (metis map_of_SomeD snd_conv image_eqI)
  then have ne: "r \<noteq> pricing" using assms(1) by auto
  show "dm_of (set_demand_refs h dmr day p v) dmr = set_demand (dm_of h dmr) day p v"
    using dm_of_upd_row[of dmr day r h] assms(1) r
    by (simp add: set_demand_refs_def set_demand_def set_item_def map_of_dm_of)
  show "set_demand_refs h dmr day p v pricing = h pricing"
    using r ne by (simp add: set_demand_refs_def set_item_def)
qed

lemma cascade_refs_sim:
  assumes "distinct (pricing # map snd dmr)"
  shows "fst (cascade_refs day p ups dmr h) = fst (cascade day p ups (dm_of h dmr))
       \<and> dm_of (snd (cascade_refs day p ups dmr h)) dmr = snd (cascade day p ups (dm_of h dmr))
       \<and> snd (cascade_refs day p ups dmr h) pricing = h pricing"
proof (induction ups arbitrary: h)
  case Nil
  then show ?case by simp
next
  case (Cons u ups)
  show ?case
  proof (cases "get_demand_refs h dmr day u")
    case (Inl e)
    then show ?thesis
      using Cons.IH[of h] get_demand_refs_sim[of h dmr day u] by simp
  next
    case (Inr d)
    then show ?thesis
      using Cons.IH[of h] Cons.IH[of "set_demand_refs h dmr day u (d - 1)"]
        get_demand_refs_sim[of h dmr day u] set_demand_refs_sim[OF assms Inr, of "d - 1"]
      by simp
  qed
qed


lemma sell_while_refs_sim:
  assumes "distinct (pricing # map snd dmr)"
  shows "fst (sell_while_refs prices day p nf pricing dmr h)
           = fst (sell_while prices day p nf (h pricing) (dm_of h dmr))
       \<and> fst (snd (sell_while_refs prices day p nf pricing dmr h))
           = fst (snd (sell_while prices day p nf (h pricing) (dm_of h dmr)))
       \<and> snd (snd (sell_while_refs prices day p nf pricing dmr h)) pricing
           = fst (snd (snd (sell_while prices day p nf (h pricing) (dm_of h dmr))))
       \<and> dm_of (snd (snd (sell_while_refs prices day p nf pricing dmr h))) dmr
           = snd (snd (snd (sell_while prices day p nf (h pricing) (dm_of h dmr))))"
  using assms
proof (induction prices day p nf pricing dmr h rule: sell_while_refs.induct)
  case (1 prices day p nf pricing dmr h)
  note sep = "1.prems"
  have gd: "get_demand (dm_of h dmr) day p = get_demand_refs h dmr day p"
    by (simp add: get_demand_refs_sim)
  have gi: "get_item h pricing p
              = (case map_of (h pricing) p of None \<Rightarrow> Inl KeyError | Some s \<Rightarrow> Inr s)"
    by (simp add: get_item_def)
  consider (stop) e where
      "sell_while_refs prices day p nf pricing dmr h = (e, nf, h)"
      "sell_while prices day p nf (h pricing) (dm_of h dmr) = (e, nf, h pricing, dm_of h dmr)"
    | (sell) d s where "get_demand_refs h dmr day p = Inr d" "0 < d"
      "map_of (h pricing) p = Some s" "0 < s"
  proof (cases "get_demand_refs h dmr day p")
    case (Inl e)
    have "sell_while_refs prices day p nf pricing dmr h = (Some e, nf, h)"
      using Inl by (subst sell_while_refs.simps) simp
    moreover have "sell_while prices day p nf (h pricing) (dm_of h dmr)
                     = (Some e, nf, h pricing, dm_of h dmr)"
      using Inl gd by (subst sell_while.simps) simp
    ultimately show ?thesis by (rule stop)
  next
    case (Inr d)
    show ?thesis
    proof (cases "0 < d")
      case False
      have "sell_while_refs prices day p nf pricing dmr h = (None, nf, h)"
        using Inr False by (subst sell_while_refs.simps) simp
      moreover have "sell_while prices day p nf (h pricing) (dm_of h dmr)
                       = (None, nf, h pricing, dm_of h dmr)"
        using Inr False gd by (subst sell_while.simps) simp
      ultimately show ?thesis by (rule stop)
    next
      case dpos: True
      show ?thesis
      proof (cases "map_of (h pricing) p")
        case None
        have "sell_while_refs prices day p nf pricing dmr h = (Some KeyError, nf, h)"
          using Inr dpos None gi by (subst sell_while_refs.simps) simp
        moreover have "sell_while prices day p nf (h pricing) (dm_of h dmr)
                         = (Some KeyError, nf, h pricing, dm_of h dmr)"
          using Inr dpos None gd by (subst sell_while.simps) simp
        ultimately show ?thesis by (rule stop)
      next
        case (Some s)
        show ?thesis
        proof (cases "0 < s")
          case False
          have "sell_while_refs prices day p nf pricing dmr h = (None, nf, h)"
            using Inr dpos Some False gi by (subst sell_while_refs.simps) simp
          moreover have "sell_while prices day p nf (h pricing) (dm_of h dmr)
                           = (None, nf, h pricing, dm_of h dmr)"
            using Inr dpos Some False gd by (subst sell_while.simps) simp
          ultimately show ?thesis by (rule stop)
        next
          case True
          then show ?thesis using Inr dpos Some by (rule sell[rotated 3])
        qed
      qed
    qed
  qed
  then show ?case
  proof cases
    case stop
    then show ?thesis by simp
  next
    case sell
    note Inr = sell(1) and dpos = sell(2) and Some = sell(3) and spos = sell(4)
    have gis: "get_item h pricing p = Inr s" using Some gi by simp
    let ?nf = "(day, fst (snd nf) + 1, snd (snd nf) + p)"
    let ?h = "set_item h pricing p (s - 1)"
    have npr: "pricing \<notin> set (map snd dmr)" using sep by simp
    have hp: "?h pricing = AList.update p (s - 1) (h pricing)" by (simp add: set_item_def)
    have hd: "dm_of ?h dmr = dm_of h dmr"
      using dm_of_upd_other[OF npr] by (simp add: set_item_def)
    obtain e h'' where c: "cascade_refs day p prices dmr ?h = (e, h'')"
      by (cases "cascade_refs day p prices dmr ?h")
    have cs: "fst (cascade day p prices (dm_of h dmr)) = e"
      "snd (cascade day p prices (dm_of h dmr)) = dm_of h'' dmr"
      "h'' pricing = AList.update p (s - 1) (h pricing)"
      using cascade_refs_sim[OF sep, of day p prices ?h] c hd hp by simp_all
    then have cv: "cascade day p prices (dm_of h dmr) = (e, dm_of h'' dmr)"
      by (metis prod.collapse)
    show ?thesis
    proof (cases e)
      case (Some err)
      have "sell_while_refs prices day p nf pricing dmr h = (Some err, ?nf, h'')"
        using Inr dpos gis spos c Some by (subst sell_while_refs.simps) (simp add: Let_def)
      moreover have "sell_while prices day p nf (h pricing) (dm_of h dmr)
                       = (Some err, ?nf, h'' pricing, dm_of h'' dmr)"
        using gd Inr dpos sell(3) spos cv Some cs(3)
        by (subst sell_while.simps) (simp add: Let_def)
      ultimately show ?thesis by simp
    next
      case None
      have L: "sell_while_refs prices day p nf pricing dmr h
                 = sell_while_refs prices day p ?nf pricing dmr h''"
        using Inr dpos gis spos c None
        by (subst sell_while_refs.simps) (simp add: Let_def)
      have R: "sell_while prices day p nf (h pricing) (dm_of h dmr)
                 = sell_while prices day p ?nf (h'' pricing) (dm_of h'' dmr)"
        using gd Inr dpos Some spos cv None cs(3)
        by (subst sell_while.simps) (simp add: Let_def)
      show ?thesis
        unfolding L R
        by (rule "1.IH"[OF Inr dpos gis spos refl refl c[symmetric] None sep])
    qed
  qed
qed

lemma sell_prices_refs_sim:
  assumes "distinct (pricing # map snd dmr)"
  shows "fst (sell_prices_refs prices day ps nf pricing dmr h)
           = fst (sell_prices prices day ps nf (h pricing) (dm_of h dmr))
       \<and> fst (snd (sell_prices_refs prices day ps nf pricing dmr h))
           = fst (snd (sell_prices prices day ps nf (h pricing) (dm_of h dmr)))
       \<and> snd (snd (sell_prices_refs prices day ps nf pricing dmr h)) pricing
           = fst (snd (snd (sell_prices prices day ps nf (h pricing) (dm_of h dmr))))
       \<and> dm_of (snd (snd (sell_prices_refs prices day ps nf pricing dmr h))) dmr
           = snd (snd (snd (sell_prices prices day ps nf (h pricing) (dm_of h dmr))))"
proof (induction ps arbitrary: nf h)
  case Nil
  then show ?case by simp
next
  case (Cons p ps)
  obtain e nf' h' where w: "sell_while_refs prices day p nf pricing dmr h = (e, nf', h')"
    by (cases "sell_while_refs prices day p nf pricing dmr h") auto
  have v: "sell_while prices day p nf (h pricing) (dm_of h dmr) = (e, nf', h' pricing, dm_of h' dmr)"
    using sell_while_refs_sim[OF assms, of prices day p nf h] w
    by (metis fst_conv snd_conv prod.collapse)
  show ?case using w v Cons.IH[of nf' h'] by (cases e) simp_all
qed

lemma forecast_days_refs_sim:
  assumes "distinct (pricing # map snd dmr)"
  shows "fst (forecast_days_refs prices ds fc pricing dmr h)
           = fst (forecast_days prices ds fc (h pricing) (dm_of h dmr))
       \<and> fst (snd (forecast_days_refs prices ds fc pricing dmr h))
           = fst (snd (forecast_days prices ds fc (h pricing) (dm_of h dmr)))
       \<and> snd (snd (forecast_days_refs prices ds fc pricing dmr h)) pricing
           = fst (snd (snd (forecast_days prices ds fc (h pricing) (dm_of h dmr))))
       \<and> dm_of (snd (snd (forecast_days_refs prices ds fc pricing dmr h))) dmr
           = snd (snd (snd (forecast_days prices ds fc (h pricing) (dm_of h dmr))))"
proof (induction ds arbitrary: fc h)
  case Nil
  then show ?case by simp
next
  case (Cons day ds)
  let ?nf = "(day, fst (snd (last fc)), snd (snd (last fc)))"
  obtain e nf' h' where w: "sell_prices_refs prices day prices ?nf pricing dmr h = (e, nf', h')"
    by (cases "sell_prices_refs prices day prices ?nf pricing dmr h") auto
  have v: "sell_prices prices day prices ?nf (h pricing) (dm_of h dmr)
             = (e, nf', h' pricing, dm_of h' dmr)"
    using sell_prices_refs_sim[OF assms, of prices day prices ?nf h] w
    by (metis fst_conv snd_conv prod.collapse)
  show ?case using w v Cons.IH[of "fc @ [nf']" h'] by (cases e) (simp_all add: Let_def)
qed

lemma keys_dm_of: "map fst (dm_of h dmr) = map fst dmr"
  by (induction dmr) (auto simp: dm_of_def)

lemma forecast_refs_separate:
  assumes "distinct (pricing # map snd dmr)"
  shows "fst (forecast_refs od pricing dmr h) = fst (forecast od (h pricing) (dm_of h dmr))
       \<and> snd (forecast_refs od pricing dmr h) pricing
           = fst (snd (forecast od (h pricing) (dm_of h dmr)))
       \<and> dm_of (snd (forecast_refs od pricing dmr h)) dmr
           = snd (snd (forecast od (h pricing) (dm_of h dmr)))"
proof -
  let ?prices = "sort (map fst (h pricing))" and ?ds = "sort (map fst dmr)"
  let ?last = "if length (history od) = 0 then (hd ?ds - 1, 0, 0) else last (history od)"
  obtain e fc h' where w: "forecast_days_refs ?prices ?ds [?last] pricing dmr h = (e, fc, h')"
    by (cases "forecast_days_refs ?prices ?ds [?last] pricing dmr h") auto
  have v: "forecast_days ?prices ?ds [?last] (h pricing) (dm_of h dmr)
             = (e, fc, h' pricing, dm_of h' dmr)"
    using forecast_days_refs_sim[OF assms, of ?prices ?ds "[?last]" h] w
    by (metis fst_conv snd_conv prod.collapse)
  show ?thesis
    using w v
    by (cases e) (simp_all add: forecast_refs_def forecast_refs_from_def forecast_def
        forecast_from_def keys_dm_of Let_def)
qed

text \<open>
  C1, as the code has it. Let \<^verbatim>\<open>pricing\<close> and the rows of \<^verbatim>\<open>demand_matrix\<close> be pairwise
  different dictionary objects (no key twice in \<^verbatim>\<open>pricing\<close> nor among the days), such that
  the demand matrix has a day, every row has an entry for every price of the pricing, and the
  earliest day is not before the day of the last history point of the OD. Then
  \<^verbatim>\<open>OD.forecast\<close> returns the points of \<open>spec_forecast\<close>: days in ascending order, within a
  day the tiers in ascending order, a sale while demand and seats of the tier are positive,
  each sale adding one booking and the price, taking one seat at the price and one unit of
  the day's positive demand at every tier at or above the price. The points are one per day
  of the demand matrix, in ascending order, without the seed point; the seats and the
  demands left in the dictionaries are those of \<open>spec_forecast\<close>, and the keys of the
  pricing are unchanged.
\<close>

theorem forecast_refs_follows_spec:
  assumes "separate pricing dmr"
    "distinct (map fst (h pricing))" "distinct (map fst dmr)" "dmr \<noteq> []"
    "complete_rows (h pricing) (dm_of h dmr)"
    "history od = [] \<or> fst (last (history od)) \<le> Min (fst ` set dmr)"
  shows "fst (forecast_refs od pricing dmr h)
           = Inr (fst (spec_forecast (history od) (h pricing) (dm_of h dmr)))
       \<and> map fst (fst (spec_forecast (history od) (h pricing) (dm_of h dmr)))
           = sorted_list_of_set (fst ` set dmr)
       \<and> seats_of (snd (forecast_refs od pricing dmr h) pricing)
           = seats (snd (spec_forecast (history od) (h pricing) (dm_of h dmr)))
       \<and> demand_of (dm_of (snd (forecast_refs od pricing dmr h)) dmr)
           = demand (snd (spec_forecast (history od) (h pricing) (dm_of h dmr)))
       \<and> map fst (snd (forecast_refs od pricing dmr h) pricing) = map fst (h pricing)"
proof -
  have keys: "fst ` set (dm_of h dmr) = fst ` set dmr"
    using keys_dm_of[of h dmr] by (metis set_map)
  have v: "fst (forecast od (h pricing) (dm_of h dmr))
             = Inr (fst (spec_forecast (history od) (h pricing) (dm_of h dmr)))
       \<and> map fst (fst (spec_forecast (history od) (h pricing) (dm_of h dmr)))
             = sorted_list_of_set (fst ` set (dm_of h dmr))
       \<and> seats_of (fst (snd (forecast od (h pricing) (dm_of h dmr))))
             = seats (snd (spec_forecast (history od) (h pricing) (dm_of h dmr)))
       \<and> demand_of (snd (snd (forecast od (h pricing) (dm_of h dmr))))
             = demand (snd (spec_forecast (history od) (h pricing) (dm_of h dmr)))
       \<and> map fst (fst (snd (forecast od (h pricing) (dm_of h dmr)))) = map fst (h pricing)
       \<and> map fst (snd (snd (forecast od (h pricing) (dm_of h dmr)))) = map fst (dm_of h dmr)"
  proof (rule forecast_value_follows_spec)
    show "distinct (map fst (h pricing))" by (rule assms(2))
    show "distinct (map fst (dm_of h dmr))" using assms(3) by (simp add: keys_dm_of)
    show "dm_of h dmr \<noteq> []" using assms(4) by (simp add: dm_of_def)
    show "complete_rows (h pricing) (dm_of h dmr)" by (rule assms(5))
    show "history od = [] \<or> fst (last (history od)) \<le> Min (fst ` set (dm_of h dmr))"
      using assms(6) unfolding keys .
  qed
  show ?thesis
    using v forecast_refs_separate[OF assms(1)[unfolded separate_def], of od h] keys
    by simp
qed

lemma dm_of_data: "dm_of store_data demand_refs_data = demand_matrix_data"
  by code_simp

theorem forecast_refs_follows_spec_witness:
  "separate 0 demand_refs_data
   \<and> distinct (map fst (store_data 0)) \<and> distinct (map fst demand_refs_data)
   \<and> demand_refs_data \<noteq> []
   \<and> complete_rows (store_data 0) (dm_of store_data demand_refs_data)
   \<and> (history od_ply_lpd = []
        \<or> fst (last (history od_ply_lpd)) \<le> Min (fst ` set demand_refs_data))
   \<and> fst (forecast_refs od_ply_lpd 0 demand_refs_data store_data) =
       Inr [(- 7, 5, 150), (- 6, 6, 170), (- 5, 9, 260), (- 4, 12, 360),
            (- 3, 15, 480), (- 2, 18, 620), (- 1, 21, 770), (0, 21, 770)]
   \<and> fst (spec_forecast (history od_ply_lpd) (store_data 0)
            (dm_of store_data demand_refs_data)) =
       [(- 7, 5, 150), (- 6, 6, 170), (- 5, 9, 260), (- 4, 12, 360),
        (- 3, 15, 480), (- 2, 18, 620), (- 1, 21, 770), (0, 21, 770)]"
proof -
  have 1: "separate 0 demand_refs_data" by (simp add: separate_def demand_refs_data_def)
  have p: "store_data 0 = pricing_data" by (simp add: store_data_def)
  have 2: "distinct (map fst (store_data 0))" by (simp add: p pricing_data_def)
  have 3: "distinct (map fst demand_refs_data)" by (simp add: demand_refs_data_def)
  have 4: "demand_refs_data \<noteq> []" by (simp add: demand_refs_data_def)
  have 5: "complete_rows (store_data 0) (dm_of store_data demand_refs_data)"
    unfolding dm_of_data p
    by (simp add: complete_rows_def pricing_data_def demand_matrix_data_def)
  have 6: "history od_ply_lpd = []
        \<or> fst (last (history od_ply_lpd)) \<le> Min (fst ` set demand_refs_data)"
    by (simp add: history_od_ply_lpd demand_refs_data_def)
  have r: "fst (forecast_refs od_ply_lpd 0 demand_refs_data store_data) =
       Inr [(- 7, 5, 150), (- 6, 6, 170), (- 5, 9, 260), (- 4, 12, 360),
            (- 3, 15, 480), (- 2, 18, 620), (- 1, 21, 770), (0, 21, 770)]"
    by code_simp
  show ?thesis
    using forecast_refs_follows_spec [OF 1 2 3 4 5 6] 1 2 3 4 5 6 r by simp
qed

text \<open>
  C1, as the claim has it, fails on dictionaries that share objects. When \<^verbatim>\<open>pricing\<close> is
  also the row of the only day, one sale takes two from \<^verbatim>\<open>pricing[10]\<close> (the seat, and the
  demand of the same entry), and the call returns one booking where the claim gives two.
  When day -1 and day 0 hold the same row, the sales of day -1 use up the demand of day 0,
  and the call returns no booking on day 0 where the claim gives two more.
\<close>

theorem forecast_refs_shared_counterexample:
  "distinct (map fst (store_one 0)) \<and> complete_rows (store_one 0) (dm_of store_one [(0, 0)])
   \<and> fst (forecast_refs (OD ply lpd) 0 [(0, 0)] store_one) = Inr [(0, 1, 10)]
   \<and> snd (forecast_refs (OD ply lpd) 0 [(0, 0)] store_one) 0 = [(10, 0)]
   \<and> fst (spec_forecast (history (OD ply lpd)) (store_one 0) (dm_of store_one [(0, 0)]))
       = [(0, 2, 20)]
   \<and> distinct (map fst (store_two 0))
   \<and> complete_rows (store_two 0) (dm_of store_two [(- 1, 1), (0, 1)])
   \<and> fst (forecast_refs (OD ply lpd) 0 [(- 1, 1), (0, 1)] store_two)
       = Inr [(- 1, 2, 20), (0, 2, 20)]
   \<and> fst (spec_forecast (history (OD ply lpd)) (store_two 0)
            (dm_of store_two [(- 1, 1), (0, 1)]))
       = [(- 1, 2, 20), (0, 4, 50)]"
proof -
  have a: "fst (forecast_refs (OD ply lpd) 0 [(0, 0)] store_one) = Inr [(0, 1, 10)]"
    by code_simp
  have b: "snd (forecast_refs (OD ply lpd) 0 [(0, 0)] store_one) 0 = [(10, 0)]"
    by code_simp
  have c: "fst (spec_forecast (history (OD ply lpd)) (store_one 0) (dm_of store_one [(0, 0)]))
       = [(0, 2, 20)]"
    by code_simp
  have d: "fst (forecast_refs (OD ply lpd) 0 [(- 1, 1), (0, 1)] store_two)
       = Inr [(- 1, 2, 20), (0, 2, 20)]"
    by code_simp
  have e: "fst (spec_forecast (history (OD ply lpd)) (store_two 0)
            (dm_of store_two [(- 1, 1), (0, 1)]))
       = [(- 1, 2, 20), (0, 4, 50)]"
    by code_simp
  have f: "complete_rows (store_one 0) (dm_of store_one [(0, 0)])"
    "complete_rows (store_two 0) (dm_of store_two [(- 1, 1), (0, 1)])"
    by (simp_all add: complete_rows_def dm_of_def store_one_def store_two_def)
  show ?thesis using a b c d e f by (simp add: store_one_def store_two_def)
qed

subsection \<open>Day-x of a service\<close>

text \<open>
  C9, as the code has it. \<^verbatim>\<open>Service.day_x\<close> is today's date minus the departure date, in
  days: negative before the departure, zero on the day of the departure and positive after
  it.
\<close>

theorem day_x_value:
  "day_x today svc = toordinal today - toordinal (departure_date svc)
   \<and> (day_x today svc < 0) = (toordinal today < toordinal (departure_date svc))
   \<and> (day_x today svc = 0) = (toordinal today = toordinal (departure_date svc))
   \<and> (0 < day_x today svc) = (toordinal (departure_date svc) < toordinal today)"
  by (auto simp: day_x_def date_sub_def)

text \<open>C9, as the claim has it, fails on the day after the departure: the value is 1, which
  is neither negative nor the number of days from today to the departure.\<close>

theorem day_x_after_departure_counterexample:
  "toordinal (departure_date (Service ''7601'' (Date 739200))) < toordinal (Date 739201)
   \<and> day_x (Date 739201) (Service ''7601'' (Date 739200)) = 1
   \<and> \<not> day_x (Date 739201) (Service ''7601'' (Date 739200)) < 0
   \<and> day_x (Date 739201) (Service ''7601'' (Date 739200))
       \<noteq> toordinal (departure_date (Service ''7601'' (Date 739200))) - toordinal (Date 739201)"
  by (simp add: day_x_def date_sub_def Service_def)

end
